theory Spec2Isabelle
  imports Main
begin

section \<open>Automatic control dependencies: the data model\<close>

text \<open>
  The embedding follows \<^verbatim>\<open>tensorflow/python/framework/auto_control_deps.py\<close>.
  Operations and tensors are immutable values that carry their producer, as the Python
  references do; an operation is identified by \<open>op_id\<close>, a tensor by its producer's id
  and its output index. The only mutable attributes the pass touches, the control inputs
  of an operation, live in the graph as a set of pairs \<open>(x, c)\<close>: operation \<open>x\<close> has the
  control input \<open>c\<close>.
\<close>

datatype error = RuntimeError string | IndexError | AttributeError

datatype dtype = Resource | Other

datatype control_flow_context =
  ControlFlowContext (ctx_id: nat) (is_while_context: bool)
    (outer_context: "control_flow_context option")

datatype operation =
  Operation (op_id: nat) (op_type: string) (inputs: "tensor list")
    (output_dtypes: "dtype list") (control_flow_context: "control_flow_context option")
    (is_stateful: bool)
and tensor =
  Tensor (t_op: operation) (value_index: nat) (dtype: dtype)

type_synonym tensor_key = "nat \<times> nat"

text \<open>
  Modelled from the spec: \<^verbatim>\<open>ops.tensor_id\<close> is not under src; a tensor is owned by
  exactly one producing operation and is identified by identity, here the producer's id
  and the output position.
\<close>

definition tensor_id :: "tensor \<Rightarrow> tensor_key" where
  "tensor_id t = (op_id (t_op t), value_index t)"

definition outputs :: "operation \<Rightarrow> tensor list" where
  "outputs op = map (\<lambda>(i, d). Tensor op i d) (enumerate 0 (output_dtypes op))"

record graph =
  operations :: "operation list"
  control_edges :: "(nat \<times> nat) set"
  registered_ops :: "string set"
  add_control_dependencies :: bool
  outer_graph :: "nat option"
  graph_control_flow_context :: "control_flow_context option"

subsection \<open>The exemption tables and the stateful test\<close>

definition ASYNC_STATEFUL_OPS :: "string list" where
  "ASYNC_STATEFUL_OPS =
     [''CollectiveGather'', ''CollectiveReduce'', ''CollectiveBcastSend'',
      ''CollectiveBcastRecv'', ''NcclAllReduce'']"

definition LEGACY_RANDOM_OPS :: "string list" where
  "LEGACY_RANDOM_OPS =
     [''RandomUniform'', ''RandomUniformInt'', ''RandomStandardNormal'',
      ''ParameterizedTruncatedNormal'', ''TruncatedNormal'', ''RandomShuffle'',
      ''Multinomial'', ''RandomGamma'', ''RandomGammaGrad'', ''RandomPoisson'',
      ''RandomPoissonV2'']"

definition ORDER_INSENSITIVE_STATEFUL_OPS :: "string list" where
  "ORDER_INSENSITIVE_STATEFUL_OPS =
     [''CudnnRNNV2'', ''CudnnRNNV3'', ''CudnnRNNBackpropV2'', ''CudnnRNNBackpropV3'']"

definition ALL_BLACKLISTED_OPS :: "string set" where
  "ALL_BLACKLISTED_OPS =
     set ASYNC_STATEFUL_OPS \<union> set LEGACY_RANDOM_OPS \<union> set ORDER_INSENSITIVE_STATEFUL_OPS"

definition op_is_stateful :: "operation \<Rightarrow> bool" where
  "op_is_stateful op = (is_stateful op \<and> op_type op \<notin> ALL_BLACKLISTED_OPS)"

subsection \<open>Helpers of the graph library\<close>

text \<open>
  Modelled from the spec: \<^verbatim>\<open>control_flow_util.IsInWhileLoop\<close> is not under src; an
  operation is inside an iterative construct when its context or one of the enclosing
  contexts is a loop context.
\<close>

fun in_while_context :: "control_flow_context \<Rightarrow> bool" where
  "in_while_context (ControlFlowContext i w outer) =
     (w \<or> (case outer of None \<Rightarrow> False | Some c \<Rightarrow> in_while_context c))"

definition IsInWhileLoop :: "operation \<Rightarrow> bool" where
  "IsInWhileLoop op =
     (case control_flow_context op of None \<Rightarrow> False | Some c \<Rightarrow> in_while_context c)"

text \<open>
  Modelled from the spec: \<^verbatim>\<open>Operation._add_control_input\<close> is not under src; the
  control inputs of an operation are a set, and the primitive adds one edge.
\<close>

definition add_control_input :: "operation \<Rightarrow> operation \<Rightarrow> graph \<Rightarrow> graph" where
  "add_control_input op c g = g\<lparr>control_edges := insert (op_id op, op_id c) (control_edges g)\<rparr>"

definition add_control_inputs :: "operation \<Rightarrow> operation set \<Rightarrow> graph \<Rightarrow> graph" where
  "add_control_inputs op cs g =
     g\<lparr>control_edges := (\<lambda>c. (op_id op, op_id c)) ` cs \<union> control_edges g\<rparr>"

text \<open>
  Modelled from the spec: \<^verbatim>\<open>control_flow_ops.merge\<close> is not under src; it appends a
  Merge operation over the given tensors to the graph, in the graph's current context,
  with a value output and an index output.
\<close>

definition merge_op :: "tensor list \<Rightarrow> graph \<Rightarrow> operation" where
  "merge_op ins g =
     Operation (length (operations g)) ''Merge'' ins
       [case ins of [] \<Rightarrow> Other | t # _ \<Rightarrow> dtype t, Other]
       (graph_control_flow_context g) False"

definition set_control_flow_context ::
  "control_flow_context option \<Rightarrow> operation \<Rightarrow> operation" where
  "set_control_flow_context c op =
     Operation (op_id op) (op_type op) (inputs op) (output_dtypes op) c (is_stateful op)"

text \<open>
  Modelled from the spec: \<^verbatim>\<open>array_ops.identity\<close> is not under src; it appends a new
  identity operation that copies the tensor and returns the operation's single output.
\<close>

definition identity_op :: "tensor \<Rightarrow> graph \<Rightarrow> operation" where
  "identity_op t g =
     Operation (length (operations g)) ''Identity'' [t] [dtype t]
       (graph_control_flow_context g) False"

definition identity :: "tensor \<Rightarrow> graph \<Rightarrow> tensor \<times> graph" where
  "identity t g =
     (Tensor (identity_op t g) 0 (dtype t),
      g\<lparr>operations := operations g @ [identity_op t g]\<rparr>)"

section \<open>The working state of one pass\<close>

record pass_state =
  ps_graph :: graph
  ops_which_must_run :: "operation set"
  last_op_using_resource_tensor :: "tensor_key option \<rightharpoonup> operation"
  merge_for_resource :: "tensor_key \<rightharpoonup> operation"

definition ps_add_control_input :: "operation \<Rightarrow> operation \<Rightarrow> pass_state \<Rightarrow> pass_state" where
  "ps_add_control_input op c st = st\<lparr>ps_graph := add_control_input op c (ps_graph st)\<rparr>"

subsection \<open>The switch resolution protocol\<close>

text \<open>
  The part of \<^verbatim>\<open>_process_switch\<close> after the early return: a merge over the outputs
  of the switch is created, moved to the outer context, forced to run, and recorded.
  Reading \<^verbatim>\<open>outer_context\<close> of a missing context raises AttributeError after the
  merge has been appended to the graph.
\<close>

definition resolve_switch ::
  "operation \<Rightarrow> tensor_key \<Rightarrow> pass_state \<Rightarrow> error option \<times> pass_state" where
  "resolve_switch switch_op input_id st =
     (let g = ps_graph st;
          created = merge_op (outputs switch_op) g
      in case control_flow_context switch_op of
           None \<Rightarrow>
             (Some AttributeError,
              st\<lparr>ps_graph := g\<lparr>operations := operations g @ [created]\<rparr>\<rparr>)
         | Some c \<Rightarrow>
             let new_merge = set_control_flow_context (outer_context c) created;
                 st1 = st\<lparr>ps_graph := g\<lparr>operations := operations g @ [new_merge]\<rparr>,
                          ops_which_must_run := insert new_merge (ops_which_must_run st)\<rparr>;
                 st2 = (case last_op_using_resource_tensor st1 (Some input_id) of
                          Some l \<Rightarrow> ps_add_control_input switch_op l st1
                        | None \<Rightarrow> st1);
                 st3 = st2\<lparr>last_op_using_resource_tensor :=
                              (last_op_using_resource_tensor st2)(Some input_id \<mapsto> new_merge)\<rparr>;
                 st4 = (case merge_for_resource st3 input_id of
                          Some m \<Rightarrow> ps_add_control_input m new_merge st3
                        | None \<Rightarrow> st3)
             in (None,
                 st4\<lparr>merge_for_resource :=
                        foldl (\<lambda>m out. m(tensor_id out \<mapsto> new_merge))
                          (merge_for_resource st4) (outputs switch_op)\<rparr>))"

lemma size_first_input: "inputs op = inp # rest \<Longrightarrow> size (t_op inp) < size op"
  by (cases op; cases inp) simp

function process_switch :: "operation \<Rightarrow> pass_state \<Rightarrow> error option \<times> pass_state" where
  "process_switch switch_op st =
     (case inputs switch_op of
        [] \<Rightarrow> (Some IndexError, st)
      | inp # _ \<Rightarrow>
          (case (if dtype inp = Resource \<and> op_type (t_op inp) = ''Switch''
                 then process_switch (t_op inp) st else (None, st)) of
             (Some e, st1) \<Rightarrow> (Some e, st1)
           | (None, st1) \<Rightarrow>
               (case outputs switch_op of
                  [] \<Rightarrow> (Some IndexError, st1)
                | output # _ \<Rightarrow>
                    if merge_for_resource st1 (tensor_id output) \<noteq> None then (None, st1)
                    else resolve_switch switch_op (tensor_id inp) st1)))"
  by pat_completeness auto
termination
  by (relation "measure (\<lambda>(op, st). size op)") (auto dest: size_first_input)

declare process_switch.simps [simp del]

subsection \<open>The loop over the new operations\<close>

text \<open>
  What one new resource input does to the working state once its switch, if any, is
  resolved: the merge recorded for the tensor waits for the operation, and the operation
  becomes the last user of the tensor.
\<close>

definition use_resource :: "operation \<Rightarrow> tensor \<Rightarrow> pass_state \<Rightarrow> pass_state" where
  "use_resource op inp st1 =
     (let st2 = (case merge_for_resource st1 (tensor_id inp) of
                   Some m \<Rightarrow> ps_add_control_input m op st1
                 | None \<Rightarrow> st1)
      in st2\<lparr>last_op_using_resource_tensor :=
               (last_op_using_resource_tensor st2)(Some (tensor_id inp) \<mapsto> op)\<rparr>)"

text \<open>
  The inner loop of \<^verbatim>\<open>__exit__\<close> over the inputs of one operation. The accumulator
  holds \<^verbatim>\<open>resource_inputs\<close>, \<^verbatim>\<open>control_inputs\<close> and the working state.
\<close>

fun resource_inputs_loop ::
  "operation \<Rightarrow> tensor list \<Rightarrow> tensor_key set \<times> operation set \<times> pass_state \<Rightarrow>
   error option \<times> tensor_key set \<times> operation set \<times> pass_state" where
  "resource_inputs_loop op [] acc = (None, acc)"
| "resource_inputs_loop op (inp # rest) (resource_inputs, control_inputs, st) =
     (if dtype inp \<noteq> Resource then
        resource_inputs_loop op rest (resource_inputs, control_inputs, st)
      else if tensor_id inp \<in> resource_inputs then
        resource_inputs_loop op rest (resource_inputs, control_inputs, st)
      else
        (case (if op_type (t_op inp) = ''Switch'' then process_switch (t_op inp) st
               else (None, st)) of
           (Some e, st1) \<Rightarrow> (Some e, insert (tensor_id inp) resource_inputs, control_inputs, st1)
         | (None, st1) \<Rightarrow>
             let control_inputs1 =
                   (case last_op_using_resource_tensor st1 (Some (tensor_id inp)) of
                      Some l \<Rightarrow>
                        if control_flow_context l = control_flow_context op
                        then insert l control_inputs else control_inputs
                    | None \<Rightarrow> control_inputs)
             in resource_inputs_loop op rest
                  (insert (tensor_id inp) resource_inputs, control_inputs1,
                   use_resource op inp st1)))"

text \<open>A merge made by the conditional absorbs everything that must run.\<close>

definition absorb_into_merge :: "operation \<Rightarrow> pass_state \<Rightarrow> pass_state" where
  "absorb_into_merge op st =
     st\<lparr>ps_graph := add_control_inputs op (ops_which_must_run st) (ps_graph st),
        last_op_using_resource_tensor :=
          (\<lambda>k. if last_op_using_resource_tensor st k \<noteq> None \<and>
                   (\<exists>c\<in>ops_which_must_run st. \<exists>inp\<in>set (inputs c). k = Some (tensor_id inp))
                then Some op else last_op_using_resource_tensor st k),
        ops_which_must_run := {op}\<rparr>"

text \<open>The chain of stateful operations with no resource input and no context.\<close>

definition chain_stateful :: "operation \<Rightarrow> tensor_key set \<Rightarrow> pass_state \<Rightarrow> pass_state" where
  "chain_stateful op resource_inputs st =
     (if op_is_stateful op \<and> resource_inputs = {} \<and> control_flow_context op = None then
        (case last_op_using_resource_tensor st None of
           Some l \<Rightarrow> ps_add_control_input op l st
         | None \<Rightarrow> st)
        \<lparr>last_op_using_resource_tensor := (last_op_using_resource_tensor st)(None \<mapsto> op)\<rparr>
      else st)"

text \<open>
  The rest of the body once the operation is neither skipped nor a merge: its resource
  inputs are walked, the stateful chain is extended, and the collected control inputs
  that share its context are attached.
\<close>

definition process_consumer :: "operation \<Rightarrow> pass_state \<Rightarrow> error option \<times> pass_state" where
  "process_consumer op st1 =
     (case resource_inputs_loop op (inputs op) ({}, {}, st1) of
        (Some e, _, _, st2) \<Rightarrow> (Some e, st2)
      | (None, resource_inputs, control_inputs, st2) \<Rightarrow>
          let st3 = chain_stateful op resource_inputs st2
          in (None,
              st3\<lparr>ps_graph :=
                    add_control_inputs op
                      {c \<in> control_inputs. control_flow_context c = control_flow_context op}
                      (ps_graph st3)\<rparr>))"

definition mark_must_run :: "operation \<Rightarrow> pass_state \<Rightarrow> pass_state" where
  "mark_must_run op st =
     (if op_type op \<notin> registered_ops (ps_graph st) \<or> op_is_stateful op
      then st\<lparr>ops_which_must_run := insert op (ops_which_must_run st)\<rparr> else st)"

text \<open>The body of the loop over \<^verbatim>\<open>new_operations\<close>.\<close>

definition process_op :: "operation \<Rightarrow> pass_state \<Rightarrow> error option \<times> pass_state" where
  "process_op op st =
     (if IsInWhileLoop op then (None, st)
      else
        let st1 = mark_must_run op st
        in if op_type op = ''Switch'' then
             (case inputs op of
                [] \<Rightarrow> (Some IndexError, st1)
              | inp # _ \<Rightarrow>
                  if dtype inp = Resource then (None, st1) else process_consumer op st1)
           else if op_type op = ''Merge'' then (None, absorb_into_merge op st1)
           else process_consumer op st1)"

fun process_ops :: "operation list \<Rightarrow> pass_state \<Rightarrow> error option \<times> pass_state" where
  "process_ops [] st = (None, st)"
| "process_ops (op # rest) st =
     (case process_op op st of
        (Some e, st1) \<Rightarrow> (Some e, st1)
      | (None, st1) \<Rightarrow> process_ops rest st1)"

definition initial_pass_state :: "graph \<Rightarrow> pass_state" where
  "initial_pass_state g =
     \<lparr>ps_graph = g, ops_which_must_run = {},
      last_op_using_resource_tensor = Map.empty, merge_for_resource = Map.empty\<rparr>"

section \<open>The context manager\<close>

record world =
  executing_eagerly :: bool
  default_graph :: nat
  graphs :: "nat \<Rightarrow> graph"

record manager =
  returned_tensors :: "tensor set"
  self_ops_which_must_run :: "operation set"
  self_graph :: "nat option"
  n_operations :: "nat option"

definition init_manager :: manager where
  "init_manager =
     \<lparr>returned_tensors = {}, self_ops_which_must_run = {}, self_graph = None,
      n_operations = None\<rparr>"

datatype composite =
  Plain tensor
| IndexedSlices (is_values: tensor) (is_indices: tensor) (is_dense_shape: "tensor option")
| SparseTensor (sp_indices: tensor) (sp_values: tensor) (sp_dense_shape: tensor)
| TensorArray (ta_handle: tensor) (ta_flow: tensor)

text \<open>
  Modelled from the spec: \<^verbatim>\<open>tensor_array_ops.build_ta_with_new_flow\<close> is not under
  src; it is the same resizable array with the sequencing token replaced.
\<close>

definition build_ta_with_new_flow :: "composite \<Rightarrow> tensor \<Rightarrow> composite" where
  "build_ta_with_new_flow ta new_flow =
     (case ta of TensorArray h _ \<Rightarrow> TensorArray h new_flow | other \<Rightarrow> other)"

definition identity_in_default :: "tensor \<Rightarrow> world \<Rightarrow> tensor \<times> world" where
  "identity_in_default t w =
     (let (t', g') = identity t (graphs w (default_graph w))
      in (t', w\<lparr>graphs := (graphs w)(default_graph w := g')\<rparr>))"

fun mark_as_return :: "manager \<Rightarrow> composite \<Rightarrow> world \<Rightarrow> composite \<times> manager \<times> world" where
  "mark_as_return self (IndexedSlices vals idxs shape) w =
     (let (values', w1) = identity_in_default vals w;
          (indices', w2) = identity_in_default idxs w1
      in (IndexedSlices values' indices' shape,
          self\<lparr>returned_tensors := insert values' (insert indices' (returned_tensors self))\<rparr>,
          w2))"
| "mark_as_return self (SparseTensor idxs vals shape) w =
     (let (values', w1) = identity_in_default vals w;
          (indices', w2) = identity_in_default idxs w1
      in (SparseTensor indices' values' shape,
          self\<lparr>returned_tensors := insert values' (insert indices' (returned_tensors self))\<rparr>,
          w2))"
| "mark_as_return self (TensorArray h fl) w =
     (let (flow', w1) = identity_in_default fl w
      in (build_ta_with_new_flow (TensorArray h fl) flow',
          self\<lparr>returned_tensors := insert flow' (returned_tensors self)\<rparr>, w1))"
| "mark_as_return self (Plain t) w =
     (let (t', w1) = identity_in_default t w
      in (Plain t', self\<lparr>returned_tensors := insert t' (returned_tensors self)\<rparr>, w1))"


definition enter :: "manager \<Rightarrow> world \<Rightarrow> manager \<times> world" where
  "enter self w =
     (if executing_eagerly w then (self, w)
      else
        let gid = default_graph w;
            g = (graphs w gid)\<lparr>add_control_dependencies := True\<rparr>
        in (self\<lparr>self_graph := Some gid, n_operations := Some (length (operations g))\<rparr>,
            w\<lparr>graphs := (graphs w)(gid := g)\<rparr>))"

text \<open>The edges that tie the returned tensors to the operations which must run.\<close>

definition anchor_returned :: "tensor set \<Rightarrow> operation set \<Rightarrow> graph \<Rightarrow> graph" where
  "anchor_returned rs must g =
     (if must = {} then g
      else g\<lparr>control_edges :=
             (\<Union>r\<in>rs. (\<lambda>c. (op_id (t_op r), op_id c)) `
                        {c \<in> must. control_flow_context c = control_flow_context (t_op r)})
             \<union> control_edges g\<rparr>)"

definition exit_region :: "manager \<Rightarrow> world \<Rightarrow> error option \<times> manager \<times> world" where
  "exit_region self w =
     (if executing_eagerly w then (None, self, w)
      else
        (case self_graph self of
           None \<Rightarrow> (Some AttributeError, self, w)
         | Some gid \<Rightarrow>
             if gid \<noteq> default_graph w then
               (Some (RuntimeError ''Graph changed while trying to add control dependencies.''),
                self, w)
             else
               let g = graphs w gid;
                   g1 = g\<lparr>add_control_dependencies :=
                           (case outer_graph g of
                              Some og \<Rightarrow> add_control_dependencies (graphs w og)
                            | None \<Rightarrow> False)\<rparr>;
                   w1 = w\<lparr>graphs := (graphs w)(gid := g1)\<rparr>
               in (case n_operations self of
                     None \<Rightarrow> (Some AttributeError, self, w1)
                   | Some n \<Rightarrow>
                       (case process_ops (drop n (operations g1)) (initial_pass_state g1) of
                          (Some e, st) \<Rightarrow>
                            (Some e, self, w\<lparr>graphs := (graphs w)(gid := ps_graph st)\<rparr>)
                        | (None, st) \<Rightarrow>
                            let self1 = self\<lparr>self_ops_which_must_run :=
                                               self_ops_which_must_run self \<union>
                                               ops_which_must_run st\<rparr>;
                                g2 = anchor_returned (returned_tensors self1)
                                       (self_ops_which_must_run self1) (ps_graph st)
                            in (None, self1, w\<lparr>graphs := (graphs w)(gid := g2)\<rparr>)))))"

section \<open>Vocabulary of the statements\<close>

text \<open>The operations appended to the default graph between two worlds.\<close>

definition new_operations :: "world \<Rightarrow> world \<Rightarrow> operation list" where
  "new_operations w w' =
     drop (length (operations (graphs w (default_graph w)))) (operations (graphs w' (default_graph w)))"

definition is_identity_of :: "tensor \<Rightarrow> tensor \<Rightarrow> bool" where
  "is_identity_of t' t =
     (op_type (t_op t') = ''Identity'' \<and> inputs (t_op t') = [t] \<and> value_index t' = 0
      \<and> dtype t' = dtype t)"


text \<open>
  Operation ids are positions in the graph: no tensor consumed in the graph names a
  producer beyond the end of the graph.
\<close>

definition ids_in_range :: "graph \<Rightarrow> bool" where
  "ids_in_range g =
     (\<forall>op\<in>set (operations g). \<forall>inp\<in>set (inputs op). op_id (t_op inp) < length (operations g))"

text \<open>Notions used to reason about the loop.\<close>

definition producers_closed :: "operation set \<Rightarrow> bool" where
  "producers_closed U = (\<forall>op\<in>U. \<forall>t\<in>set (inputs op). t_op t \<in> U)"

definition synthesized_merge :: "operation \<Rightarrow> pass_state \<Rightarrow> operation" where
  "synthesized_merge S st =
     set_control_flow_context
       (case control_flow_context S of None \<Rightarrow> None | Some c \<Rightarrow> outer_context c)
       (merge_op (outputs S) (ps_graph st))"

definition extends :: "pass_state \<Rightarrow> pass_state \<Rightarrow> bool" where
  "extends st st' =
     ((\<exists>new. operations (ps_graph st') = operations (ps_graph st) @ new) \<and>
      control_edges (ps_graph st) \<subseteq> control_edges (ps_graph st') \<and>
      registered_ops (ps_graph st') = registered_ops (ps_graph st) \<and>
      (\<forall>k. merge_for_resource st k \<noteq> None \<longrightarrow> merge_for_resource st' k \<noteq> None))"

definition switch_free :: "operation \<Rightarrow> bool" where
  "switch_free X =
     (\<forall>inp\<in>set (inputs X). dtype inp = Resource \<longrightarrow> op_type (t_op inp) \<noteq> ''Switch'')"

definition resource_keys :: "tensor list \<Rightarrow> tensor_key set" where
  "resource_keys ins = set (map tensor_id (filter (\<lambda>t. dtype t = Resource) ins))"

definition loop_result ::
  "operation \<Rightarrow> tensor_key set \<Rightarrow> pass_state \<Rightarrow> pass_state" where
  "loop_result X ks st =
     st\<lparr>ps_graph := (ps_graph st)\<lparr>control_edges :=
           control_edges (ps_graph st) \<union>
           (\<lambda>m. (op_id m, op_id X)) ` {m. \<exists>k\<in>ks. merge_for_resource st k = Some m}\<rparr>,
        last_op_using_resource_tensor :=
          (\<lambda>q. if q \<in> Some ` ks then Some X else last_op_using_resource_tensor st q)\<rparr>"

definition loop_controls :: "operation \<Rightarrow> tensor_key set \<Rightarrow> pass_state \<Rightarrow> operation set" where
  "loop_controls X ks st =
     {l. \<exists>k\<in>ks. last_op_using_resource_tensor st (Some k) = Some l \<and>
                control_flow_context l = control_flow_context X}"

definition must_run_rel :: "pass_state \<Rightarrow> pass_state \<Rightarrow> bool" where
  "must_run_rel st st' =
     (ops_which_must_run st' \<subseteq> ops_which_must_run st \<union> {m. op_type m = ''Merge''})"

definition add_edges :: "(nat \<times> nat) set \<Rightarrow> pass_state \<Rightarrow> pass_state" where
  "add_edges Y st =
     st\<lparr>ps_graph := (ps_graph st)\<lparr>control_edges := control_edges (ps_graph st) \<union> Y\<rparr>\<rparr>"


definition new_ops :: "operation list \<Rightarrow> pass_state \<Rightarrow> operation list" where
  "new_ops base st = drop (length base) (operations (ps_graph st))"

definition resolves :: "operation set \<Rightarrow> operation \<Rightarrow> operation \<Rightarrow> bool" where
  "resolves U m S =
     (S \<in> U \<and> inputs m = outputs S \<and> outputs S \<noteq> [] \<and>
      (\<exists>c. control_flow_context S = Some c \<and> control_flow_context m = outer_context c))"

definition merges_ok :: "operation list \<Rightarrow> operation set \<Rightarrow> pass_state \<Rightarrow> bool" where
  "merges_ok base U st =
     ((\<exists>new. operations (ps_graph st) = base @ new) \<and>
      (\<forall>m\<in>set (new_ops base st).
         op_type m = ''Merge'' \<and> length base \<le> op_id m \<and> (\<exists>S. resolves U m S) \<and>
         (\<forall>t\<in>set (inputs m). merge_for_resource st (tensor_id t) = Some m)) \<and>
      (\<forall>k m. merge_for_resource st k = Some m \<longrightarrow>
         m \<in> set (new_ops base st) \<and> k \<in> tensor_id ` set (inputs m)) \<and>
      distinct (map inputs (new_ops base st)) \<and>
      (\<forall>m\<in>set (new_ops base st).
         m \<in> ops_which_must_run st \<or>
         (\<exists>N\<in>U. op_type N = ''Merge'' \<and> (op_id N, op_id m) \<in> control_edges (ps_graph st))))"

text \<open>
  The vocabulary of a slice without resource inputs. Only a Switch without inputs raises
  there; the operations chained through the sentinel key are the stateful ones outside
  loops and contexts; the must-run set after a prefix restarts at each Merge.
\<close>

definition raises :: "operation \<Rightarrow> bool" where
  "raises op = (\<not> IsInWhileLoop op \<and> op_type op = ''Switch'' \<and> inputs op = [])"

definition chained :: "operation \<Rightarrow> bool" where
  "chained op =
     (\<not> IsInWhileLoop op \<and> op_type op \<noteq> ''Merge'' \<and> op_is_stateful op \<and>
      control_flow_context op = None)"

definition sentinel_after :: "operation option \<Rightarrow> operation list \<Rightarrow> operation option" where
  "sentinel_after l0 pre =
     (if filter chained pre = [] then l0 else Some (last (filter chained pre)))"

fun must_run_after :: "string set \<Rightarrow> operation set \<Rightarrow> operation list \<Rightarrow> operation set" where
  "must_run_after reg M [] = M"
| "must_run_after reg M (op # rest) =
     must_run_after reg
       (if IsInWhileLoop op then M
        else if op_type op = ''Merge'' then {op}
        else if op_type op \<notin> reg \<or> op_is_stateful op then insert op M
        else M) rest"

definition must_run_at ::
  "string set \<Rightarrow> operation set \<Rightarrow> operation list \<Rightarrow> operation \<Rightarrow> operation set" where
  "must_run_at reg M pre op =
     (if op_type op \<notin> reg \<or> op_is_stateful op then insert op (must_run_after reg M pre)
      else must_run_after reg M pre)"

definition adds_edge ::
  "string set \<Rightarrow> operation set \<Rightarrow> operation option \<Rightarrow> operation list \<Rightarrow> operation \<Rightarrow>
     nat \<Rightarrow> nat \<Rightarrow> bool" where
  "adds_edge reg M l0 pre op x c =
     ((\<forall>p\<in>set pre. \<not> raises p) \<and> x = op_id op \<and> \<not> IsInWhileLoop op \<and>
      (op_type op = ''Merge'' \<and> c \<in> op_id ` must_run_at reg M pre op
       \<or> chained op \<and> \<not> raises op \<and>
         (\<exists>l. sentinel_after l0 pre = Some l \<and> c = op_id l)))"

text \<open>
  Two working states reached by processing an operation and its twin of another kind:
  the same graph, the same recorded merges, must-run sets that differ by \<open>D\<close>, and
  last users that agree except where the one holds the operation and the other its twin.
\<close>

definition twin_states ::
  "operation \<Rightarrow> operation \<Rightarrow> operation set \<Rightarrow> pass_state \<Rightarrow> pass_state \<Rightarrow> bool" where
  "twin_states op op' D st st' =
     (ps_graph st' = ps_graph st \<and> merge_for_resource st' = merge_for_resource st \<and>
      ops_which_must_run st' = ops_which_must_run st \<union> D \<and>
      (\<forall>k. last_op_using_resource_tensor st' k = last_op_using_resource_tensor st k \<or>
           last_op_using_resource_tensor st k = Some op \<and>
           last_op_using_resource_tensor st' k = Some op'))"

text \<open>
  The operations appended since the graph held \<open>ops0\<close> are all in the must-run set.
\<close>

definition fresh_marked :: "operation list \<Rightarrow> pass_state \<Rightarrow> bool" where
  "fresh_marked ops0 st =
     (\<exists>new. operations (ps_graph st) = ops0 @ new \<and> set new \<subseteq> ops_which_must_run st)"

text \<open>
  The vocabulary of the ordering of two consumers of a resource tensor \<open>t\<close>. An
  operation is calm when its other resource inputs neither share the identity of \<open>t\<close>
  nor come from a Switch; an operation is quiet when the loop does not touch the last
  user of \<open>t\<close> while processing it: it is inside a loop, or a Switch over a resource,
  or it is no Merge and none of its resource inputs has the identity of \<open>t\<close> or comes
  from a Switch.
\<close>

definition calm :: "tensor \<Rightarrow> operation \<Rightarrow> bool" where
  "calm t X =
     (\<forall>inp\<in>set (inputs X). dtype inp = Resource \<and> inp \<noteq> t \<longrightarrow>
        tensor_id inp \<noteq> tensor_id t \<and> op_type (t_op inp) \<noteq> ''Switch'')"

definition quiet :: "tensor \<Rightarrow> operation \<Rightarrow> bool" where
  "quiet t X =
     (IsInWhileLoop X \<or>
      (op_type X = ''Switch'' \<and> inputs X \<noteq> [] \<and> dtype (hd (inputs X)) = Resource) \<or>
      (op_type X \<noteq> ''Merge'' \<and>
       (\<forall>inp\<in>set (inputs X). dtype inp = Resource \<longrightarrow>
          tensor_id inp \<noteq> tensor_id t \<and> op_type (t_op inp) \<noteq> ''Switch'')))"

text \<open>
  Two invariants of the loop. An operation id is unseen while nothing the working state
  records carries it and no control edge towards it has been added; an operation id is
  settled once no recorded merge carries it and no control edge from it is added any more.
\<close>

definition unseen :: "nat \<Rightarrow> (nat \<times> nat) set \<Rightarrow> pass_state \<Rightarrow> bool" where
  "unseen b E st =
     (b < length (operations (ps_graph st)) \<and>
      (\<forall>k l. last_op_using_resource_tensor st k = Some l \<longrightarrow> op_id l \<noteq> b) \<and>
      (\<forall>c\<in>ops_which_must_run st. op_id c \<noteq> b) \<and>
      (\<forall>x. (x, b) \<in> control_edges (ps_graph st) \<longrightarrow> (x, b) \<in> E))"

definition settled :: "nat \<Rightarrow> (nat \<times> nat) set \<Rightarrow> pass_state \<Rightarrow> bool" where
  "settled a E st =
     (a < length (operations (ps_graph st)) \<and>
      (\<forall>m\<in>ran (merge_for_resource st). op_id m \<noteq> a) \<and>
      (\<forall>c. (a, c) \<in> control_edges (ps_graph st) \<longrightarrow> (a, c) \<in> E))"

section \<open>Example graphs\<close>

definition g0 :: graph where
  "g0 =
     \<lparr>operations = [], control_edges = {},
      registered_ops =
        {''VarHandleOp'', ''AssignVariableOp'', ''ReadVariableOp'', ''Const'', ''Identity'',
         ''Switch'', ''Merge'', ''RandomUniform'', ''NoOp''},
      add_control_dependencies = False, outer_graph = None,
      graph_control_flow_context = None\<rparr>"

definition w0 :: world where
  "w0 = \<lparr>executing_eagerly = False, default_graph = 1, graphs = (\<lambda>_. g0)\<rparr>"

definition c_indices :: operation where "c_indices = Operation 0 ''Const'' [] [Other] None False"
definition c_values :: operation where "c_values = Operation 1 ''Const'' [] [Other] None False"
definition c_shape :: operation where "c_shape = Operation 2 ''Const'' [] [Other] None False"
definition t_indices :: tensor where "t_indices = Tensor c_indices 0 Other"
definition t_values :: tensor where "t_values = Tensor c_values 0 Other"
definition t_shape :: tensor where "t_shape = Tensor c_shape 0 Other"

definition w_sparse :: world where
  "w_sparse = w0\<lparr>graphs := (\<lambda>_. g0\<lparr>operations := [c_indices, c_values, c_shape]\<rparr>)\<rparr>"


definition assign_values :: operation where
  "assign_values = Operation 3 ''AssignVariableOp'' [t_values] [] None True"

definition w_region :: world where
  "w_region =
     w0\<lparr>graphs := (\<lambda>_. g0\<lparr>operations := [c_indices, c_values, c_shape, assign_values]\<rparr>)\<rparr>"

definition m_region :: manager where
  "m_region = init_manager\<lparr>self_graph := Some 1, n_operations := Some 3\<rparr>"

definition v_handle :: operation where
  "v_handle = Operation 0 ''VarHandleOp'' [] [Resource] None True"
definition v_resource :: tensor where
  "v_resource = Tensor v_handle 0 Resource"
definition assign_v :: operation where
  "assign_v = Operation 1 ''AssignVariableOp'' [v_resource] [] None True"
definition copy_v :: operation where
  "copy_v = Operation 2 ''Identity'' [v_resource] [Resource] None False"
definition merge_n :: operation where
  "merge_n = Operation 3 ''Merge'' [Tensor c_values 0 Other] [Other, Other] None False"
definition w_handle :: operation where
  "w_handle = Operation 1 ''VarHandleOp'' [] [Resource] None True"

definition g_merge :: graph where
  "g_merge = g0\<lparr>operations := [v_handle, assign_v, copy_v, merge_n]\<rparr>"

definition g_handles :: graph where
  "g_handles = g0\<lparr>operations := [v_handle, w_handle]\<rparr>"

definition rand_v :: operation where
  "rand_v = Operation 2 ''RandomUniform'' [v_resource] [Other] None True"

definition g_rand :: graph where
  "g_rand = g0\<lparr>operations := [v_handle, assign_v, rand_v]\<rparr>"

definition ctx_true :: control_flow_context where
  "ctx_true = ControlFlowContext 1 False None"
definition ctx_false :: control_flow_context where
  "ctx_false = ControlFlowContext 2 False None"
definition pred_c :: operation where
  "pred_c = Operation 1 ''Const'' [] [Other] None False"
definition switch_v :: operation where
  "switch_v = Operation 2 ''Switch'' [v_resource, Tensor pred_c 0 Other] [Resource, Resource]
                (Some ctx_true) False"
definition assign_t :: operation where
  "assign_t = Operation 3 ''AssignVariableOp'' [Tensor switch_v 1 Resource] [] (Some ctx_true) True"
definition assign_f :: operation where
  "assign_f = Operation 4 ''AssignVariableOp'' [Tensor switch_v 0 Resource] [] (Some ctx_false) True"
definition merge_4 :: operation where
  "merge_4 = Operation 4 ''Merge'' (outputs switch_v) [Resource, Other] None False"
definition merge_5 :: operation where
  "merge_5 = Operation 5 ''Merge'' (outputs switch_v) [Resource, Other] None False"

definition g_both :: graph where
  "g_both = g0\<lparr>operations := [v_handle, pred_c, switch_v, assign_t, assign_f]\<rparr>"

definition both_slice :: "operation list" where
  "both_slice = [v_handle, pred_c, switch_v, assign_t, assign_f]"

definition assign_indices :: operation where
  "assign_indices = Operation 4 ''AssignVariableOp'' [t_indices] [] None True"
definition merge_iv :: operation where
  "merge_iv = Operation 5 ''Merge'' [t_indices, t_values] [Other, Other] None False"
definition g_plain :: graph where
  "g_plain =
     g0\<lparr>operations := [c_indices, c_values, c_shape, assign_values, assign_indices, merge_iv]\<rparr>"

definition rand_t :: operation where
  "rand_t = Operation 3 ''RandomUniform'' [Tensor switch_v 1 Resource] [Other] (Some ctx_true) True"

definition g_rand_cond :: graph where
  "g_rand_cond = g0\<lparr>operations := [v_handle, pred_c, switch_v, rand_t]\<rparr>"

section \<open>Closing a region\<close>

text \<open>
  Claim C6. A region opened in graph mode records the identity of the default graph.
  When it is closed in graph mode while another graph is the default one, the call raises
  the RuntimeError "Graph changed while trying to add control dependencies." and leaves
  the manager and every graph as they were: no control edge is added.
\<close>

theorem exit_graph_changed:
  assumes "\<not> executing_eagerly w" and "enter self w = (self1, w1)"
    and "self_graph self2 = self_graph self1"
    and "\<not> executing_eagerly w2" and "default_graph w2 \<noteq> default_graph w"
  shows "exit_region self2 w2 =
           (Some (RuntimeError ''Graph changed while trying to add control dependencies.''),
            self2, w2)"
  using assms by (auto simp add: enter_def exit_region_def Let_def)

theorem exit_graph_changed_witness:
  "\<not> executing_eagerly w0 \<and>
   default_graph (snd (enter init_manager w0)\<lparr>default_graph := 2\<rparr>) \<noteq> default_graph w0 \<and>
   exit_region (fst (enter init_manager w0)) (snd (enter init_manager w0)\<lparr>default_graph := 2\<rparr>) =
     (Some (RuntimeError ''Graph changed while trying to add control dependencies.''),
      fst (enter init_manager w0), snd (enter init_manager w0)\<lparr>default_graph := 2\<rparr>)"
  using exit_graph_changed [of w0 init_manager "fst (enter init_manager w0)"
      "snd (enter init_manager w0)" "fst (enter init_manager w0)"
      "snd (enter init_manager w0)\<lparr>default_graph := 2\<rparr>"]
  by (simp add: enter_def w0_def Let_def)

section \<open>Marking return values\<close>

lemmas ex_defs = c_indices_def c_values_def c_shape_def t_indices_def t_values_def t_shape_def
  w_sparse_def w0_def g0_def init_manager_def

lemma identity_in_default_props:
  assumes "identity_in_default t w = (t', w')"
  shows "is_identity_of t' t"
    and "operations (graphs w' (default_graph w)) = operations (graphs w (default_graph w)) @ [t_op t']"
    and "default_graph w' = default_graph w"
    and "op_id (t_op t') = length (operations (graphs w (default_graph w)))"
    and "control_flow_context (t_op t') = graph_control_flow_context (graphs w (default_graph w))"
    and "executing_eagerly w' = executing_eagerly w"
  using assms
  by (auto simp add: identity_in_default_def identity_def identity_op_def is_identity_of_def Let_def)

text \<open>
  Claim C8, as amended. For an indexed-slices value and for a sparse value,
  \<open>mark_as_return\<close> creates two identity operations, the first copying the values and
  the second the indices, registers both outputs and rebuilds the composite from them
  with the dense shape it was given: the shape is neither copied nor registered. For a
  tensor array it creates one identity operation copying the flow, registers its output
  and rebuilds the array around the same handle.
\<close>

theorem mark_as_return_composite:
  assumes "mark_as_return self v w = (v', self', w')"
  shows "(\<forall>vals idxs shape. v = IndexedSlices vals idxs shape \<longrightarrow>
            (\<exists>vals' idxs'. v' = IndexedSlices vals' idxs' shape \<and>
               is_identity_of vals' vals \<and> is_identity_of idxs' idxs \<and>
               new_operations w w' = [t_op vals', t_op idxs'] \<and>
               returned_tensors self' = {vals', idxs'} \<union> returned_tensors self))
       \<and> (\<forall>idxs vals shape. v = SparseTensor idxs vals shape \<longrightarrow>
            (\<exists>vals' idxs'. v' = SparseTensor idxs' vals' shape \<and>
               is_identity_of vals' vals \<and> is_identity_of idxs' idxs \<and>
               new_operations w w' = [t_op vals', t_op idxs'] \<and>
               returned_tensors self' = {vals', idxs'} \<union> returned_tensors self))
       \<and> (\<forall>h fl. v = TensorArray h fl \<longrightarrow>
            (\<exists>fl'. v' = TensorArray h fl' \<and> is_identity_of fl' fl \<and>
               new_operations w w' = [t_op fl'] \<and>
               returned_tensors self' = {fl'} \<union> returned_tensors self))"
proof (cases v)
  case (Plain t)
  then show ?thesis by simp
next
  case (IndexedSlices vals idxs shape)
  obtain a w1 where a: "identity_in_default vals w = (a, w1)" by force
  obtain b w2 where b: "identity_in_default idxs w1 = (b, w2)" by force
  from identity_in_default_props[OF a] identity_in_default_props[OF b] assms a b IndexedSlices
  show ?thesis by (auto simp add: new_operations_def)
next
  case (SparseTensor idxs vals shape)
  obtain a w1 where a: "identity_in_default vals w = (a, w1)" by force
  obtain b w2 where b: "identity_in_default idxs w1 = (b, w2)" by force
  from identity_in_default_props[OF a] identity_in_default_props[OF b] assms a b SparseTensor
  show ?thesis by (auto simp add: new_operations_def)
next
  case (TensorArray h fl)
  obtain a w1 where a: "identity_in_default fl w = (a, w1)" by force
  from identity_in_default_props[OF a] assms a TensorArray
  show ?thesis by (auto simp add: new_operations_def build_ta_with_new_flow_def)
qed

theorem mark_as_return_composite_witness:
  "\<exists>vals' idxs'. is_identity_of vals' t_values \<and> is_identity_of idxs' t_indices \<and>
     fst (mark_as_return init_manager (SparseTensor t_indices t_values t_shape) w_sparse)
       = SparseTensor idxs' vals' t_shape"
  using mark_as_return_composite [of init_manager "SparseTensor t_indices t_values t_shape" w_sparse
     "fst (mark_as_return init_manager (SparseTensor t_indices t_values t_shape) w_sparse)"
     "fst (snd (mark_as_return init_manager (SparseTensor t_indices t_values t_shape) w_sparse))"
     "snd (snd (mark_as_return init_manager (SparseTensor t_indices t_values t_shape) w_sparse))"]
  by auto


text \<open>
  Claim C8 as stated fails on the shape component: for a sparse value the two operations
  created copy the values and the indices, the dense shape of the result is the tensor
  that was passed in, produced by a Const operation, and it is not registered.
\<close>

theorem mark_as_return_sparse_counterexample:
  "sp_dense_shape (fst (mark_as_return init_manager (SparseTensor t_indices t_values t_shape) w_sparse)) = t_shape
   \<and> op_type (t_op t_shape) = ''Const''
   \<and> map inputs (new_operations w_sparse
        (snd (snd (mark_as_return init_manager (SparseTensor t_indices t_values t_shape) w_sparse))))
       = [[t_values], [t_indices]]
   \<and> t_shape \<notin> returned_tensors
        (fst (snd (mark_as_return init_manager (SparseTensor t_indices t_values t_shape) w_sparse)))"
  by (simp add: ex_defs identity_in_default_def identity_def identity_op_def Let_def new_operations_def)



lemma mark_as_return_plain:
  assumes "mark_as_return self (Plain t) w = (v', self', w')"
  shows "\<exists>t'. v' = Plain t' \<and> is_identity_of t' t \<and> new_operations w w' = [t_op t'] \<and>
           returned_tensors self' = insert t' (returned_tensors self) \<and>
           op_id (t_op t') = length (operations (graphs w (default_graph w))) \<and>
           operations (graphs w' (default_graph w)) = operations (graphs w (default_graph w)) @ [t_op t']"
proof -
  obtain a w1 where a: "identity_in_default t w = (a, w1)" by force
  from identity_in_default_props[OF a] assms a
  show ?thesis by (auto simp add: new_operations_def)
qed








lemma anchor_returned_edge:
  assumes "r \<in> rs" and "c \<in> must" and "control_flow_context c = control_flow_context (t_op r)"
  shows "(op_id (t_op r), op_id c) \<in> control_edges (anchor_returned rs must g)"
proof -
  have "must \<noteq> {}" using assms(2) by blast
  moreover have "(op_id (t_op r), op_id c) \<in>
     (\<Union>r\<in>rs. (\<lambda>c. (op_id (t_op r), op_id c)) `
        {c \<in> must. control_flow_context c = control_flow_context (t_op r)})"
    using assms by blast
  ultimately show ?thesis by (simp add: anchor_returned_def)
qed

lemma exit_region_normal:
  assumes "exit_region self w = (None, self', w')" and "\<not> executing_eagerly w"
  obtains n st where "self_graph self = Some (default_graph w)" and "n_operations self = Some n"
    and "process_ops
             (drop n (operations (graphs w (default_graph w))))
             (initial_pass_state
                ((graphs w (default_graph w))\<lparr>add_control_dependencies :=
                   (case outer_graph (graphs w (default_graph w)) of
                      Some og \<Rightarrow> add_control_dependencies (graphs w og)
                    | None \<Rightarrow> False)\<rparr>)) = (None, st)"
    and "self' = self\<lparr>self_ops_which_must_run :=
                     self_ops_which_must_run self \<union> ops_which_must_run st\<rparr>"
    and "w' = w\<lparr>graphs := (graphs w)(default_graph w :=
                   anchor_returned (returned_tensors self)
                     (self_ops_which_must_run self \<union> ops_which_must_run st) (ps_graph st))\<rparr>"
proof -
  define g1 where "g1 = (graphs w (default_graph w))\<lparr>add_control_dependencies :=
                   (case outer_graph (graphs w (default_graph w)) of
                      Some og \<Rightarrow> add_control_dependencies (graphs w og)
                    | None \<Rightarrow> False)\<rparr>"
  from assms obtain gid where g: "self_graph self = Some gid"
    by (cases "self_graph self") (auto simp add: exit_region_def)
  with assms have eq: "gid = default_graph w"
    by (auto simp add: exit_region_def split: if_splits)
  from assms g eq obtain n where n: "n_operations self = Some n"
    by (cases "n_operations self") (auto simp add: exit_region_def Let_def)
  obtain e st where r: "process_ops (drop n (operations g1)) (initial_pass_state g1) = (e, st)"
    by force
  with assms g eq n have e: "e = None"
    by (cases e) (auto simp add: exit_region_def Let_def g1_def)
  have ops: "operations g1 = operations (graphs w (default_graph w))" by (simp add: g1_def)
  from assms g eq n r e have res:
    "self' = self\<lparr>self_ops_which_must_run :=
                     self_ops_which_must_run self \<union> ops_which_must_run st\<rparr>"
    "w' = w\<lparr>graphs := (graphs w)(default_graph w :=
                   anchor_returned (returned_tensors self)
                     (self_ops_which_must_run self \<union> ops_which_must_run st) (ps_graph st))\<rparr>"
    by (simp_all add: exit_region_def Let_def g1_def)
  have g': "self_graph self = Some (default_graph w)" using g eq by simp
  have r': "process_ops
             (drop n (operations (graphs w (default_graph w))))
             (initial_pass_state
                ((graphs w (default_graph w))\<lparr>add_control_dependencies :=
                   (case outer_graph (graphs w (default_graph w)) of
                      Some og \<Rightarrow> add_control_dependencies (graphs w og)
                    | None \<Rightarrow> False)\<rparr>)) = (None, st)"
    using r e ops unfolding g1_def by simp
  show thesis by (rule that[OF g' n r' res])
qed

lemma exit_anchors:
  assumes "exit_region self2 w2 = (None, self3, w3)" and "\<not> executing_eagerly w2"
    and "r \<in> returned_tensors self2" and "c \<in> self_ops_which_must_run self3"
    and "control_flow_context c = control_flow_context (t_op r)"
  shows "(op_id (t_op r), op_id c) \<in> control_edges (graphs w3 (default_graph w2))"
proof (rule exit_region_normal[OF assms(1,2)])
  fix n :: nat and st :: pass_state
  assume st: "self3 = self2\<lparr>self_ops_which_must_run :=
                 self_ops_which_must_run self2 \<union> ops_which_must_run st\<rparr>"
      "w3 = w2\<lparr>graphs := (graphs w2)(default_graph w2 :=
                   anchor_returned (returned_tensors self2)
                     (self_ops_which_must_run self2 \<union> ops_which_must_run st) (ps_graph st))\<rparr>"
  have "(op_id (t_op r), op_id c) \<in>
          control_edges (anchor_returned (returned_tensors self2)
            (self_ops_which_must_run self2 \<union> ops_which_must_run st) (ps_graph st))"
    using assms(3,4,5) st(1) by (intro anchor_returned_edge) simp_all
  then show ?thesis using st by simp
qed

lemma not_own_input: "inputs (t_op t') = [t] \<Longrightarrow> t \<noteq> t'"
proof
  assume a: "inputs (t_op t') = [t]" and "t = t'"
  then have "inputs (t_op t) = [t]" by simp
  then have "size (t_op t) > size t" by (cases "t_op t") simp
  moreover have "size t > size (t_op t)" by (cases t) simp
  ultimately show False by simp
qed

text \<open>
  Claim C9. On a plain tensor \<open>mark_as_return\<close> returns the output of a new identity
  operation over it and registers that output. No operation of the graph consumes the new
  tensor, so no stateful producer depends on it. When the region is closed in graph mode
  without an error, the identity operation has a control input on every operation of the
  must-run set whose control-flow context is its own.
\<close>

theorem mark_as_return_plain_anchored:
  assumes "mark_as_return self (Plain t) w = (v', self1, w1)"
  shows "\<exists>t'. v' = Plain t' \<and> is_identity_of t' t \<and> new_operations w w1 = [t_op t'] \<and>
           t' \<in> returned_tensors self1 \<and>
           (ids_in_range (graphs w (default_graph w)) \<longrightarrow>
              (\<forall>op\<in>set (operations (graphs w1 (default_graph w))). t' \<notin> set (inputs op))) \<and>
           (\<forall>self2 w2 self3 w3 c.
              t' \<in> returned_tensors self2 \<and> \<not> executing_eagerly w2 \<and>
              exit_region self2 w2 = (None, self3, w3) \<and>
              c \<in> self_ops_which_must_run self3 \<and>
              control_flow_context c = control_flow_context (t_op t') \<longrightarrow>
              (op_id (t_op t'), op_id c) \<in> control_edges (graphs w3 (default_graph w2)))"
proof -
  from mark_as_return_plain[OF assms] obtain t' where
    t': "v' = Plain t'" "is_identity_of t' t" "new_operations w w1 = [t_op t']"
      "returned_tensors self1 = insert t' (returned_tensors self)"
      "op_id (t_op t') = length (operations (graphs w (default_graph w)))"
      "operations (graphs w1 (default_graph w)) = operations (graphs w (default_graph w)) @ [t_op t']"
    by blast
  have "t \<noteq> t'" using t'(2) not_own_input by (simp add: is_identity_of_def)
  then have fresh: "ids_in_range (graphs w (default_graph w)) \<longrightarrow>
              (\<forall>op\<in>set (operations (graphs w1 (default_graph w))). t' \<notin> set (inputs op))"
  proof (intro impI ballI notI)
    fix op
    assume wf: "ids_in_range (graphs w (default_graph w))"
      and op: "op \<in> set (operations (graphs w1 (default_graph w)))"
      and mem: "t' \<in> set (inputs op)"
    from op t'(6) consider "op \<in> set (operations (graphs w (default_graph w)))" | "op = t_op t'"
      by auto
    then show False
    proof cases
      case 1
      with wf mem have "op_id (t_op t') < length (operations (graphs w (default_graph w)))"
        unfolding ids_in_range_def by blast
      with t'(5) show False by simp
    next
      case 2
      with mem t'(2) have "t' = t" by (simp add: is_identity_of_def)
      with \<open>t \<noteq> t'\<close> show False by simp
    qed
  qed
  show ?thesis using t' fresh exit_anchors by blast
qed

theorem mark_as_return_plain_anchored_witness:
  "(4, 3) \<in> control_edges
     (graphs (snd (snd (exit_region
        (fst (snd (mark_as_return m_region (Plain t_values) w_region)))
        (snd (snd (mark_as_return m_region (Plain t_values) w_region)))))) 1)"
proof -
  obtain v' self1 w1 where m: "mark_as_return m_region (Plain t_values) w_region = (v', self1, w1)"
    by (metis prod_cases3)
  obtain e self3 w3 where x: "exit_region self1 w1 = (e, self3, w3)"
    by (metis prod_cases3)
  from mark_as_return_plain_anchored [OF m] obtain t' where
    t': "v' = Plain t'" "is_identity_of t' t_values" "new_operations w_region w1 = [t_op t']"
      "t' \<in> returned_tensors self1"
    and anchored: "\<And>self2 w2 self3 w3 c.
              t' \<in> returned_tensors self2 \<Longrightarrow> \<not> executing_eagerly w2 \<Longrightarrow>
              exit_region self2 w2 = (None, self3, w3) \<Longrightarrow>
              c \<in> self_ops_which_must_run self3 \<Longrightarrow>
              control_flow_context c = control_flow_context (t_op t') \<Longrightarrow>
              (op_id (t_op t'), op_id c) \<in> control_edges (graphs w3 (default_graph w2))"
    by blast
  have v: "v' = Plain (Tensor (Operation 4 ''Identity'' [t_values] [Other] None False) 0 Other)"
    and w1: "w1 = w_region\<lparr>graphs := (graphs w_region)(1 :=
              g0\<lparr>operations := [c_indices, c_values, c_shape, assign_values,
                      Operation 4 ''Identity'' [t_values] [Other] None False]\<rparr>)\<rparr>"
    and s1: "self1 = m_region\<lparr>returned_tensors :=
                {Tensor (Operation 4 ''Identity'' [t_values] [Other] None False) 0 Other}\<rparr>"
    using m by (auto simp add: w_region_def m_region_def ex_defs assign_values_def
        identity_in_default_def identity_def identity_op_def Let_def)
  have x1: "fst (exit_region self1 w1) = None"
    unfolding w1 s1 by code_simp
  have x2: "Operation 3 ''AssignVariableOp'' [t_values] [] None True \<in> self_ops_which_must_run (fst (snd (exit_region self1 w1)))"
    unfolding w1 s1 by code_simp
  have x3: "\<not> executing_eagerly w1" "default_graph w1 = 1"
    unfolding w1 by (simp_all add: w_region_def w0_def)
  have t4: "t' = Tensor (Operation 4 ''Identity'' [t_values] [Other] None False) 0 Other"
    using v t'(1) by simp
  have "(op_id (t_op t'), op_id assign_values) \<in> control_edges (graphs w3 (default_graph w1))"
  proof (rule anchored [of self1 w1 self3 w3 assign_values])
    show "t' \<in> returned_tensors self1" by (rule t'(4))
    show "\<not> executing_eagerly w1" by (rule x3(1))
    show "exit_region self1 w1 = (None, self3, w3)" using x x1 by simp
    show "assign_values \<in> self_ops_which_must_run self3"
      using x x2 by (simp add: assign_values_def)
    show "control_flow_context assign_values = control_flow_context (t_op t')"
      by (simp add: t4 assign_values_def)
  qed
  then show ?thesis using m x x3(2) by (simp add: t4 assign_values_def)
qed

section \<open>Properties of the switch protocol and of the loop\<close>

lemma synthesized_merge_sel [simp]:
  "op_id (synthesized_merge S st) = length (operations (ps_graph st))"
  "op_type (synthesized_merge S st) = ''Merge''"
  "inputs (synthesized_merge S st) = outputs S"
  "is_stateful (synthesized_merge S st) = False"
  "control_flow_context (synthesized_merge S st) =
     (case control_flow_context S of None \<Rightarrow> None | Some c \<Rightarrow> outer_context c)"
  by (simp_all add: synthesized_merge_def set_control_flow_context_def merge_op_def)

lemma foldl_merge_for:
  "foldl (\<lambda>m out. m(tensor_id out \<mapsto> v)) mf outs k =
     (if k \<in> tensor_id ` set outs then Some v else mf k)"
  by (induction outs arbitrary: mf) auto

lemma resolve_switch_None:
  assumes "resolve_switch S k st = (None, st2)"
  shows "control_flow_context S \<noteq> None"
    and "operations (ps_graph st2) = operations (ps_graph st) @ [synthesized_merge S st]"
    and "ops_which_must_run st2 = insert (synthesized_merge S st) (ops_which_must_run st)"
    and "last_op_using_resource_tensor st2 =
           (last_op_using_resource_tensor st)(Some k \<mapsto> synthesized_merge S st)"
    and "merge_for_resource st2 =
           (\<lambda>k'. if k' \<in> tensor_id ` set (outputs S) then Some (synthesized_merge S st)
                 else merge_for_resource st k')"
    and "control_edges (ps_graph st2) =
           control_edges (ps_graph st)
           \<union> (case last_op_using_resource_tensor st (Some k) of
                Some l \<Rightarrow> {(op_id S, op_id l)} | None \<Rightarrow> {})
           \<union> (case merge_for_resource st k of
                Some p \<Rightarrow> {(op_id p, length (operations (ps_graph st)))} | None \<Rightarrow> {})"
    and "registered_ops (ps_graph st2) = registered_ops (ps_graph st)"
  using assms
  by (auto simp add: resolve_switch_def synthesized_merge_def Let_def foldl_merge_for
      ps_add_control_input_def add_control_input_def set_control_flow_context_def merge_op_def
      split: option.splits)

lemma resolve_switch_Some:
  assumes "resolve_switch S k st = (Some e, st2)"
  shows "control_flow_context S = None"
    and "st2 = st\<lparr>ps_graph := (ps_graph st)\<lparr>operations :=
                 operations (ps_graph st) @ [merge_op (outputs S) (ps_graph st)]\<rparr>\<rparr>"
    and "e = AttributeError"
  using assms by (auto simp add: resolve_switch_def Let_def split: option.splits)

subsection \<open>Generic rules for the recursion of the switch protocol\<close>

lemma process_switch_preserves:
  assumes step: "\<And>S inp r out r' st st2. P st \<Longrightarrow> S \<in> U \<Longrightarrow> inputs S = inp # r \<Longrightarrow>
      outputs S = out # r' \<Longrightarrow> merge_for_resource st (tensor_id out) = None \<Longrightarrow>
      resolve_switch S (tensor_id inp) st = (None, st2) \<Longrightarrow> P st2"
    and closed: "producers_closed U"
  shows "P st \<Longrightarrow> S \<in> U \<Longrightarrow> process_switch S st = (None, st') \<Longrightarrow> P st'"
proof (induction S st arbitrary: st' rule: process_switch.induct)
  case (1 S st)
  show ?case
  proof (cases "inputs S")
    case Nil
    with "1.prems"(3) show ?thesis by (simp add: process_switch.simps [of S])
  next
    case (Cons inp r)
    define rc where "rc = (if dtype inp = Resource \<and> op_type (t_op inp) = ''Switch''
                 then process_switch (t_op inp) st else (None, st))"
    obtain e1 st1 where rc: "rc = (e1, st1)" by force
    have e1: "e1 = None"
      using "1.prems"(3) Cons rc unfolding rc_def
      by (cases e1) (simp_all add: process_switch.simps [of S])
    have inU: "t_op inp \<in> U"
      using closed "1.prems"(2) Cons unfolding producers_closed_def by auto
    have P1: "P st1"
    proof (cases "dtype inp = Resource \<and> op_type (t_op inp) = ''Switch''")
      case True
      with rc e1 have "process_switch (t_op inp) st = (None, st1)" by (simp add: rc_def)
      from "1.IH" [OF Cons True "1.prems"(1) inU this] show ?thesis .
    next
      case False
      with rc have "st1 = st" by (simp add: rc_def)
      with "1.prems"(1) show ?thesis by simp
    qed
    show ?thesis
    proof (cases "outputs S")
      case Nil
      with "1.prems"(3) Cons rc e1 show ?thesis
        unfolding rc_def by (simp add: process_switch.simps [of S])
    next
      case (Cons out r')
      show ?thesis
      proof (cases "merge_for_resource st1 (tensor_id out) = None")
        case True
        with "1.prems"(3) \<open>inputs S = inp # r\<close> Cons rc e1
        have "resolve_switch S (tensor_id inp) st1 = (None, st')"
          unfolding rc_def by (simp add: process_switch.simps [of S])
        from step [OF P1 "1.prems"(2) \<open>inputs S = inp # r\<close> Cons True this] show ?thesis .
      next
        case False
        with "1.prems"(3) \<open>inputs S = inp # r\<close> Cons rc e1 have "st' = st1"
          unfolding rc_def by (simp add: process_switch.simps [of S])
        with P1 show ?thesis by simp
      qed
    qed
  qed
qed

lemma process_switch_rel:
  assumes refl: "\<And>st. R st st"
    and trans: "\<And>st st1 st2. R st st1 \<Longrightarrow> R st1 st2 \<Longrightarrow> R st st2"
    and step: "\<And>S k st e st2. resolve_switch S k st = (e, st2) \<Longrightarrow> R st st2"
  shows "process_switch S st = (e, st') \<Longrightarrow> R st st'"
proof (induction S st arbitrary: e st' rule: process_switch.induct)
  case (1 S st)
  show ?case
  proof (cases "inputs S")
    case Nil
    with "1.prems" refl show ?thesis by (simp add: process_switch.simps [of S])
  next
    case (Cons inp r)
    define rc where "rc = (if dtype inp = Resource \<and> op_type (t_op inp) = ''Switch''
                 then process_switch (t_op inp) st else (None, st))"
    obtain e1 st1 where rc: "rc = (e1, st1)" by force
    have R1: "R st st1"
    proof (cases "dtype inp = Resource \<and> op_type (t_op inp) = ''Switch''")
      case True
      with rc have "process_switch (t_op inp) st = (e1, st1)" by (simp add: rc_def)
      from "1.IH" [OF Cons True this] show ?thesis .
    next
      case False
      with rc have "st1 = st" by (simp add: rc_def)
      with refl show ?thesis by simp
    qed
    show ?thesis
    proof (cases e1)
      case (Some err)
      with "1.prems" Cons rc have "st' = st1"
        unfolding rc_def by (simp add: process_switch.simps [of S])
      with R1 show ?thesis by simp
    next
      case None
      note e1 = this
      show ?thesis
      proof (cases "outputs S")
        case Nil
        with "1.prems" Cons rc e1 have "st' = st1"
          unfolding rc_def by (simp add: process_switch.simps [of S])
        with R1 show ?thesis by simp
      next
        case (Cons out r')
        show ?thesis
        proof (cases "merge_for_resource st1 (tensor_id out) = None")
          case True
          with "1.prems" \<open>inputs S = inp # r\<close> Cons rc e1
          have "resolve_switch S (tensor_id inp) st1 = (e, st')"
            unfolding rc_def by (simp add: process_switch.simps [of S])
          from trans [OF R1 step [OF this]] show ?thesis .
        next
          case False
          with "1.prems" \<open>inputs S = inp # r\<close> Cons rc e1 have "st' = st1"
            unfolding rc_def by (simp add: process_switch.simps [of S])
          with R1 show ?thesis by simp
        qed
      qed
    qed
  qed
qed

lemma process_switch_resolved:
  assumes "process_switch S st = (None, st')"
  shows "\<exists>out r. outputs S = out # r \<and> merge_for_resource st' (tensor_id out) \<noteq> None"
proof (cases "inputs S")
  case Nil
  with assms show ?thesis by (simp add: process_switch.simps [of S])
next
  case (Cons inp r)
  define rc where "rc = (if dtype inp = Resource \<and> op_type (t_op inp) = ''Switch''
               then process_switch (t_op inp) st else (None, st))"
  obtain e1 st1 where rc: "rc = (e1, st1)" by force
  have e1: "e1 = None"
    using assms Cons rc unfolding rc_def
    by (cases e1) (simp_all add: process_switch.simps [of S])
  show ?thesis
  proof (cases "outputs S")
    case Nil
    with assms Cons rc e1 show ?thesis
      unfolding rc_def by (simp add: process_switch.simps [of S])
  next
    case (Cons out r')
    show ?thesis
    proof (cases "merge_for_resource st1 (tensor_id out) = None")
      case True
      with assms \<open>inputs S = inp # r\<close> Cons rc e1
      have "resolve_switch S (tensor_id inp) st1 = (None, st')"
        unfolding rc_def by (simp add: process_switch.simps [of S])
      from resolve_switch_None(5) [OF this] Cons show ?thesis by simp
    next
      case False
      with assms \<open>inputs S = inp # r\<close> Cons rc e1 have "st' = st1"
        unfolding rc_def by (simp add: process_switch.simps [of S])
      with False Cons show ?thesis by simp
    qed
  qed
qed

lemma loop_skip:
  "dtype inp \<noteq> Resource \<or> tensor_id inp \<in> ri \<Longrightarrow>
   resource_inputs_loop X (inp # rest) (ri, ci, st) = resource_inputs_loop X rest (ri, ci, st)"
  by (cases "dtype inp \<noteq> Resource") simp_all

lemma loop_take:
  assumes "dtype inp = Resource" and "tensor_id inp \<notin> ri"
    and "(if op_type (t_op inp) = ''Switch'' then process_switch (t_op inp) st else (None, st))
           = (e1, st1)"
  shows "resource_inputs_loop X (inp # rest) (ri, ci, st) =
     (case e1 of
        Some e \<Rightarrow> (Some e, insert (tensor_id inp) ri, ci, st1)
      | None \<Rightarrow>
          resource_inputs_loop X rest
            (insert (tensor_id inp) ri,
             (case last_op_using_resource_tensor st1 (Some (tensor_id inp)) of
                Some l \<Rightarrow> if control_flow_context l = control_flow_context X
                          then insert l ci else ci
              | None \<Rightarrow> ci),
             use_resource X inp st1))"
  using assms by (cases e1) (simp_all add: Let_def)

lemma loop_rel:
  assumes refl: "\<And>st. R st st"
    and trans: "\<And>st st1 st2. R st st1 \<Longrightarrow> R st1 st2 \<Longrightarrow> R st st2"
    and sw: "\<And>S st e st'. process_switch S st = (e, st') \<Longrightarrow> R st st'"
    and use: "\<And>inp st. R st (use_resource X inp st)"
  shows "resource_inputs_loop X ins (ri, ci, st) = (e, ri', ci', st') \<Longrightarrow> R st st'"
proof (induction ins arbitrary: ri ci st)
  case Nil
  then show ?case using refl by simp
next
  case (Cons inp rest)
  show ?case
  proof (cases "dtype inp \<noteq> Resource \<or> tensor_id inp \<in> ri")
    case True
    with Cons.prems have "resource_inputs_loop X rest (ri, ci, st) = (e, ri', ci', st')"
      by (simp only: loop_skip)
    from Cons.IH [OF this] show ?thesis .
  next
    case False
    define rc where "rc = (if op_type (t_op inp) = ''Switch'' then process_switch (t_op inp) st
               else (None, st))"
    obtain e1 st1 where rc: "rc = (e1, st1)" by force
    have R1: "R st st1"
      using rc sw refl unfolding rc_def by (auto split: if_splits)
    from False have f: "dtype inp = Resource" "tensor_id inp \<notin> ri" by simp_all
    note tk = loop_take [OF f rc [unfolded rc_def], of X rest ci]
    show ?thesis
    proof (cases e1)
      case (Some err)
      with Cons.prems tk have "st' = st1" by simp
      with R1 show ?thesis by simp
    next
      case None
      with Cons.prems tk obtain ci1 where
        "resource_inputs_loop X rest (insert (tensor_id inp) ri, ci1, use_resource X inp st1)
           = (e, ri', ci', st')"
        by simp
      from Cons.IH [OF this] have "R (use_resource X inp st1) st'" .
      with R1 use trans show ?thesis by blast
    qed
  qed
qed

lemma extends_refl: "extends st st"
  by (simp add: extends_def)

lemma extends_trans: "extends st st1 \<Longrightarrow> extends st1 st2 \<Longrightarrow> extends st st2"
  unfolding extends_def by (elim conjE exE) (auto simp add: subset_iff)

lemma extends_resolve: "resolve_switch S k st = (e, st2) \<Longrightarrow> extends st st2"
proof (cases e)
  case None
  assume "resolve_switch S k st = (e, st2)"
  with None have r: "resolve_switch S k st = (None, st2)" by simp
  show ?thesis
    unfolding extends_def
    using resolve_switch_None(2,5,6,7) [OF r] by auto
next
  case (Some err)
  assume "resolve_switch S k st = (e, st2)"
  with Some have r: "resolve_switch S k st = (Some err, st2)" by simp
  show ?thesis
    unfolding extends_def
    using resolve_switch_Some(2) [OF r] by simp
qed

lemma extends_process_switch: "process_switch S st = (e, st') \<Longrightarrow> extends st st'"
  by (rule process_switch_rel [where R = extends, OF extends_refl extends_trans extends_resolve])

lemma extends_use_resource: "extends st (use_resource X inp st)"
  by (auto simp add: extends_def use_resource_def ps_add_control_input_def add_control_input_def
      Let_def split: option.splits)

lemma extends_loop:
  "resource_inputs_loop X ins (ri, ci, st) = (e, ri', ci', st') \<Longrightarrow> extends st st'"
  by (rule loop_rel [where R = extends, OF extends_refl extends_trans extends_process_switch
        extends_use_resource])

lemma loop_result_empty: "loop_result X {} st = st"
  by (simp add: loop_result_def)

lemma loop_controls_empty: "loop_controls X {} st = {}"
  by (simp add: loop_controls_def)

lemma use_resource_sel:
  "ps_graph (use_resource X inp st) =
     (ps_graph st)\<lparr>control_edges := control_edges (ps_graph st) \<union>
        (\<lambda>m. (op_id m, op_id X)) ` {m. merge_for_resource st (tensor_id inp) = Some m}\<rparr>"
  "ops_which_must_run (use_resource X inp st) = ops_which_must_run st"
  "merge_for_resource (use_resource X inp st) = merge_for_resource st"
  "last_op_using_resource_tensor (use_resource X inp st) =
     (last_op_using_resource_tensor st)(Some (tensor_id inp) \<mapsto> X)"
  "pass_state.more (use_resource X inp st) = pass_state.more st"
  by (auto simp add: use_resource_def ps_add_control_input_def add_control_input_def Let_def
      split: option.splits)

lemma loop_result_use:
  assumes "k = tensor_id inp" and "k \<notin> ks"
  shows "loop_result X ks (use_resource X inp st) = loop_result X (insert k ks) st"
proof (rule pass_state.equality)
  have "control_edges (ps_graph st) \<union>
        (\<lambda>m. (op_id m, op_id X)) ` {m. merge_for_resource st k = Some m} \<union>
        (\<lambda>m. (op_id m, op_id X)) ` {m. \<exists>k'\<in>ks. merge_for_resource st k' = Some m} =
        control_edges (ps_graph st) \<union>
        (\<lambda>m. (op_id m, op_id X)) ` {m. \<exists>k'\<in>insert k ks. merge_for_resource st k' = Some m}"
    by (simp add: image_def) blast
  then show "ps_graph (loop_result X ks (use_resource X inp st)) =
        ps_graph (loop_result X (insert k ks) st)"
    using assms(1) by (simp add: loop_result_def use_resource_sel)
  show "last_op_using_resource_tensor (loop_result X ks (use_resource X inp st)) =
        last_op_using_resource_tensor (loop_result X (insert k ks) st)"
    using assms by (auto simp add: loop_result_def use_resource_sel fun_eq_iff)
qed (simp_all add: loop_result_def use_resource_sel)

lemma loop_controls_after_use:
  assumes "tensor_id inp \<notin> ks"
  shows "loop_controls X ks (use_resource X inp st) = loop_controls X ks st"
proof -
  have "\<And>k'. k' \<in> ks \<Longrightarrow>
          ((last_op_using_resource_tensor st)(Some (tensor_id inp) \<mapsto> X)) (Some k') =
          last_op_using_resource_tensor st (Some k')"
    using assms by auto
  then show ?thesis
    unfolding loop_controls_def use_resource_sel by simp
qed

lemma loop_controls_insert:
  "loop_controls X (insert k ks) st =
     (case last_op_using_resource_tensor st (Some k) of
        Some l \<Rightarrow> if control_flow_context l = control_flow_context X then {l} else {}
      | None \<Rightarrow> {}) \<union> loop_controls X ks st"
  unfolding loop_controls_def by (cases "last_op_using_resource_tensor st (Some k)") auto

lemma loop_controls_use:
  assumes "k = tensor_id inp" and "k \<notin> ks"
  shows "(case last_op_using_resource_tensor st (Some k) of
            Some l \<Rightarrow> if control_flow_context l = control_flow_context X
                      then insert l ci else ci
          | None \<Rightarrow> ci) \<union> loop_controls X ks (use_resource X inp st) =
         ci \<union> loop_controls X (insert k ks) st"
  using assms
  unfolding loop_controls_insert loop_controls_after_use [OF assms(2) [unfolded assms(1)]]
  by (cases "last_op_using_resource_tensor st (Some k)") auto

lemma loop_closed:
  assumes "\<forall>inp\<in>set ins. dtype inp = Resource \<longrightarrow> op_type (t_op inp) \<noteq> ''Switch''"
  shows "resource_inputs_loop X ins (ri, ci, st) =
           (None, ri \<union> resource_keys ins, ci \<union> loop_controls X (resource_keys ins - ri) st,
            loop_result X (resource_keys ins - ri) st)"
  using assms
proof (induction ins arbitrary: ri ci st)
  case Nil
  then show ?case
    by (simp add: resource_keys_def loop_result_empty loop_controls_empty)
next
  case (Cons inp rest)
  from Cons.prems have r: "\<forall>inp\<in>set rest. dtype inp = Resource \<longrightarrow> op_type (t_op inp) \<noteq> ''Switch''"
    by simp
  note ih = Cons.IH [OF r]
  show ?case
  proof (cases "dtype inp \<noteq> Resource \<or> tensor_id inp \<in> ri")
    case True
    then have k: "ri \<union> resource_keys (inp # rest) = ri \<union> resource_keys rest"
      "resource_keys (inp # rest) - ri = resource_keys rest - ri"
      by (auto simp add: resource_keys_def)
    show ?thesis
      unfolding loop_skip [OF True] ih k ..
  next
    case False
    then have f: "dtype inp = Resource" "tensor_id inp \<notin> ri" by simp_all
    from Cons.prems f have ns: "op_type (t_op inp) \<noteq> ''Switch''" by simp
    have rc: "(if op_type (t_op inp) = ''Switch'' then process_switch (t_op inp) st else (None, st))
           = (None, st)"
      using ns by simp
    have k: "insert (tensor_id inp) ri \<union> resource_keys rest = ri \<union> resource_keys (inp # rest)"
      "insert (tensor_id inp) (resource_keys rest - insert (tensor_id inp) ri)
         = resource_keys (inp # rest) - ri"
      using f by (auto simp add: resource_keys_def)
    have nk: "tensor_id inp \<notin> resource_keys rest - insert (tensor_id inp) ri" by simp
    show ?thesis
      unfolding loop_take [OF f rc] option.case ih
        loop_result_use [OF refl nk]
      using loop_controls_use [OF refl nk, where st=st and X=X and ci=ci] k
      by (simp add: Un_assoc)
  qed
qed

lemma chain_stateful_sel:
  "ops_which_must_run (chain_stateful X ri st) = ops_which_must_run st"
  "merge_for_resource (chain_stateful X ri st) = merge_for_resource st"
  "operations (ps_graph (chain_stateful X ri st)) = operations (ps_graph st)"
  "registered_ops (ps_graph (chain_stateful X ri st)) = registered_ops (ps_graph st)"
  "control_edges (ps_graph st) \<subseteq> control_edges (ps_graph (chain_stateful X ri st))"
  "ri \<noteq> {} \<Longrightarrow> chain_stateful X ri st = st"
  "\<not> op_is_stateful X \<Longrightarrow> chain_stateful X ri st = st"
  "k \<noteq> None \<Longrightarrow> last_op_using_resource_tensor (chain_stateful X ri st) k =
     last_op_using_resource_tensor st k"
  by (auto simp add: chain_stateful_def ps_add_control_input_def add_control_input_def
      split: option.splits)

lemma must_run_rel_resolve: "resolve_switch S k st = (e, st2) \<Longrightarrow> must_run_rel st st2"
proof (cases e)
  case None
  assume "resolve_switch S k st = (e, st2)"
  with None have r: "resolve_switch S k st = (None, st2)" by simp
  show ?thesis
    unfolding must_run_rel_def using resolve_switch_None(3) [OF r] by auto
next
  case (Some err)
  assume "resolve_switch S k st = (e, st2)"
  with Some have r: "resolve_switch S k st = (Some err, st2)" by simp
  show ?thesis
    unfolding must_run_rel_def using resolve_switch_Some(2) [OF r] by simp
qed

lemma must_run_rel_refl: "must_run_rel st st"
  by (simp add: must_run_rel_def)

lemma must_run_rel_trans: "must_run_rel st st1 \<Longrightarrow> must_run_rel st1 st2 \<Longrightarrow> must_run_rel st st2"
  by (auto simp add: must_run_rel_def)

lemma must_run_rel_process_switch:
  "process_switch S st = (e, st') \<Longrightarrow> must_run_rel st st'"
  by (rule process_switch_rel [where R = must_run_rel,
        OF must_run_rel_refl must_run_rel_trans must_run_rel_resolve])

lemma must_run_rel_use: "must_run_rel st (use_resource X inp st)"
  by (simp add: must_run_rel_def use_resource_sel)

lemma must_run_rel_loop:
  "resource_inputs_loop X ins (ri, ci, st) = (e, ri', ci', st') \<Longrightarrow> must_run_rel st st'"
  by (rule loop_rel [where R = must_run_rel,
        OF must_run_rel_refl must_run_rel_trans must_run_rel_process_switch must_run_rel_use])

lemma must_run_process_consumer:
  "ops_which_must_run (snd (process_consumer X st)) \<subseteq>
     ops_which_must_run st \<union> {m. op_type m = ''Merge''}"
proof -
  obtain e ri ci st2 where l: "resource_inputs_loop X (inputs X) ({}, {}, st) = (e, ri, ci, st2)"
    by (metis prod_cases4)
  from must_run_rel_loop [OF l] have m: "ops_which_must_run st2 \<subseteq>
     ops_which_must_run st \<union> {m. op_type m = ''Merge''}"
    by (simp add: must_run_rel_def)
  show ?thesis
    using m l by (cases e) (simp_all add: process_consumer_def Let_def chain_stateful_sel)
qed

lemma exempt_not_stateful:
  assumes "op_type op \<in> set ASYNC_STATEFUL_OPS \<union> set LEGACY_RANDOM_OPS \<union>
             set ORDER_INSENSITIVE_STATEFUL_OPS"
  shows "\<not> op_is_stateful op" and "op_type op \<noteq> ''Switch''" and "op_type op \<noteq> ''Merge''"
  using assms
  by (auto simp add: op_is_stateful_def ALL_BLACKLISTED_OPS_def ASYNC_STATEFUL_OPS_def
      LEGACY_RANDOM_OPS_def ORDER_INSENSITIVE_STATEFUL_OPS_def)

lemma process_op_consumer:
  assumes "\<not> IsInWhileLoop X" and "op_type X \<noteq> ''Switch''" and "op_type X \<noteq> ''Merge''"
  shows "process_op X st = process_consumer X (mark_must_run X st)"
  using assms by (simp add: process_op_def Let_def)

lemma process_consumer_switch_free:
  assumes "switch_free X"
  shows "process_consumer X st =
     (None,
      (chain_stateful X (resource_keys (inputs X))
         (loop_result X (resource_keys (inputs X)) st))
      \<lparr>ps_graph :=
          add_control_inputs X (loop_controls X (resource_keys (inputs X)) st)
            (ps_graph (chain_stateful X (resource_keys (inputs X))
               (loop_result X (resource_keys (inputs X)) st)))\<rparr>)"
proof -
  have c: "{c \<in> loop_controls X (resource_keys (inputs X)) st.
             control_flow_context c = control_flow_context X}
           = loop_controls X (resource_keys (inputs X)) st"
    by (auto simp add: loop_controls_def)
  from assms have "\<forall>inp\<in>set (inputs X). dtype inp = Resource \<longrightarrow> op_type (t_op inp) \<noteq> ''Switch''"
    by (simp add: switch_free_def)
  from loop_closed [OF this, of X "{}" "{}" st] show ?thesis
    by (simp add: process_consumer_def Let_def c)
qed

lemma resource_keys_mem:
  "inp \<in> set ins \<Longrightarrow> dtype inp = Resource \<Longrightarrow> tensor_id inp \<in> resource_keys ins"
  by (auto simp add: resource_keys_def)

lemma consumer_tracking:
  assumes "switch_free X" and "inp \<in> set (inputs X)" and "dtype inp = Resource"
  shows "fst (process_consumer X st) = None"
    and "last_op_using_resource_tensor (snd (process_consumer X st)) (Some (tensor_id inp)) = Some X"
    and "last_op_using_resource_tensor st (Some (tensor_id inp)) = Some l \<Longrightarrow>
         control_flow_context l = control_flow_context X \<Longrightarrow>
         (op_id X, op_id l) \<in> control_edges (ps_graph (snd (process_consumer X st)))"
    and "merge_for_resource st (tensor_id inp) = Some m \<Longrightarrow>
         (op_id m, op_id X) \<in> control_edges (ps_graph (snd (process_consumer X st)))"
proof -
  let ?ks = "resource_keys (inputs X)"
  have k: "tensor_id inp \<in> ?ks" using assms(2,3) by (rule resource_keys_mem)
  then have ne: "?ks \<noteq> {}" by auto
  have pc: "process_consumer X st =
     (None, (loop_result X ?ks st)
        \<lparr>ps_graph := add_control_inputs X (loop_controls X ?ks st)
                       (ps_graph (loop_result X ?ks st))\<rparr>)"
    unfolding process_consumer_switch_free [OF assms(1)] chain_stateful_sel(6) [OF ne] ..
  show "fst (process_consumer X st) = None" by (simp add: pc)
  show "last_op_using_resource_tensor (snd (process_consumer X st)) (Some (tensor_id inp)) = Some X"
    using k by (simp add: pc loop_result_def)
  show "(op_id X, op_id l) \<in> control_edges (ps_graph (snd (process_consumer X st)))"
    if "last_op_using_resource_tensor st (Some (tensor_id inp)) = Some l"
      and "control_flow_context l = control_flow_context X"
  proof -
    from that k have "l \<in> loop_controls X ?ks st"
      unfolding loop_controls_def by blast
    then show ?thesis by (simp add: pc add_control_inputs_def)
  qed
  show "(op_id m, op_id X) \<in> control_edges (ps_graph (snd (process_consumer X st)))"
    if "merge_for_resource st (tensor_id inp) = Some m"
  proof -
    from that k have "m \<in> {m. \<exists>k\<in>?ks. merge_for_resource st k = Some m}" by blast
    then show ?thesis by (simp add: pc add_control_inputs_def loop_result_def)
  qed
qed

lemmas cond_defs = ctx_true_def ctx_false_def pred_c_def switch_v_def assign_t_def assign_f_def
  merge_4_def merge_5_def

lemma outputs_switch_v:
  "outputs switch_v = [Tensor switch_v 0 Resource, Tensor switch_v 1 Resource]"
  by (simp add: outputs_def switch_v_def)

lemma process_switch_unchained:
  assumes "inputs S = inp # r" and "\<not> (dtype inp = Resource \<and> op_type (t_op inp) = ''Switch'')"
    and "outputs S = out # r'"
  shows "process_switch S st =
           (if merge_for_resource st (tensor_id out) \<noteq> None then (None, st)
            else resolve_switch S (tensor_id inp) st)"
proof -
  from assms(2) have "(if dtype inp = Resource \<and> op_type (t_op inp) = ''Switch''
                 then process_switch (t_op inp) st else (None, st)) = (None, st)"
    by auto
  then show ?thesis
    using assms(1,3) by (simp add: process_switch.simps [of S] del: split_paired_All)
qed

lemmas switch_defs = resolve_switch_def merge_op_def set_control_flow_context_def outputs_def

section \<open>The loop over the new operations: single steps\<close>

lemmas engine_defs = v_handle_def v_resource_def assign_v_def copy_v_def merge_n_def w_handle_def


lemma process_op_merge:
  assumes "op_type op = ''Merge''" and "\<not> IsInWhileLoop op"
  shows "process_op op st = (None, absorb_into_merge op (mark_must_run op st))"
  using assms by (simp add: process_op_def Let_def)

text \<open>
  Claim C3, as amended. A Merge operation of the slice that is not inside a loop is
  handled without error: it gets a control input on every operation then in the must-run
  set (the merge itself included when it is unregistered or stateful), the must-run set
  becomes the singleton of the merge, and nothing else of the consumer handling happens:
  no operation is created and no merge is recorded. The last user is repointed to the
  merge exactly for the keys already present in the last-user map that are the identity
  of an input tensor of some operation in the must-run set, whoever the last user was.
\<close>

theorem merge_absorbs:
  assumes "op_type op = ''Merge''" and "\<not> IsInWhileLoop op"
  shows "fst (process_op op st) = None \<and>
         ops_which_must_run st \<subseteq> ops_which_must_run (mark_must_run op st) \<and>
         control_edges (ps_graph (snd (process_op op st))) =
           (\<lambda>c. (op_id op, op_id c)) ` ops_which_must_run (mark_must_run op st)
           \<union> control_edges (ps_graph st) \<and>
         (\<forall>k. last_op_using_resource_tensor (snd (process_op op st)) k =
            (if last_op_using_resource_tensor st k \<noteq> None \<and>
                (\<exists>c\<in>ops_which_must_run (mark_must_run op st).
                   \<exists>inp\<in>set (inputs c). k = Some (tensor_id inp))
             then Some op else last_op_using_resource_tensor st k)) \<and>
         ops_which_must_run (snd (process_op op st)) = {op} \<and>
         merge_for_resource (snd (process_op op st)) = merge_for_resource st \<and>
         operations (ps_graph (snd (process_op op st))) = operations (ps_graph st)"
proof -
  have m: "ps_graph (mark_must_run op st) = ps_graph st"
    "last_op_using_resource_tensor (mark_must_run op st) = last_op_using_resource_tensor st"
    "merge_for_resource (mark_must_run op st) = merge_for_resource st"
    "ops_which_must_run st \<subseteq> ops_which_must_run (mark_must_run op st)"
    by (auto simp add: mark_must_run_def)
  have l: "\<And>k. last_op_using_resource_tensor (absorb_into_merge op (mark_must_run op st)) k =
            (if last_op_using_resource_tensor st k \<noteq> None \<and>
                (\<exists>c\<in>ops_which_must_run (mark_must_run op st).
                   \<exists>inp\<in>set (inputs c). k = Some (tensor_id inp))
             then Some op else last_op_using_resource_tensor st k)"
    unfolding absorb_into_merge_def m by (simp add: image_iff)
  show ?thesis
    unfolding process_op_merge [OF assms]
    using m l by (simp add: absorb_into_merge_def add_control_inputs_def)
qed




lemmas table_defs = ALL_BLACKLISTED_OPS_def ASYNC_STATEFUL_OPS_def LEGACY_RANDOM_OPS_def
  ORDER_INSENSITIVE_STATEFUL_OPS_def

lemma filter_insert_set:
  "{c \<in> insert a A. P c} = (if P a then insert a {c \<in> A. P c} else {c \<in> A. P c})"
  by auto

lemma filter_empty_set: "{c \<in> {}. P c} = {}"
  by simp

lemma filter_single_set: "{c. c = a \<and> P c} = (if P a then {a} else {})"
  by auto

lemmas step_defs = filter_insert_set filter_empty_set filter_single_set use_resource_def process_op_def IsInWhileLoop_def mark_must_run_def op_is_stateful_def
  process_consumer_def chain_stateful_def add_control_inputs_def add_control_input_def
  ps_add_control_input_def absorb_into_merge_def tensor_id_def initial_pass_state_def Let_def


lemma before_merge:
  "process_ops [v_handle, assign_v, copy_v] (initial_pass_state g_merge) =
     (None,
      \<lparr>ps_graph = g_merge\<lparr>control_edges := {(2, 1)}\<rparr>,
       ops_which_must_run = {assign_v, v_handle},
       last_op_using_resource_tensor = [Some (0, 0) \<mapsto> copy_v, None \<mapsto> v_handle],
       merge_for_resource = Map.empty\<rparr>)"
  by (simp add: step_defs table_defs engine_defs g0_def g_merge_def fun_upd_twist)

theorem merge_absorbs_witness:
  "op_type merge_n = ''Merge'' \<and> \<not> IsInWhileLoop merge_n \<and>
   control_edges (ps_graph (snd (process_op merge_n
     (snd (process_ops [v_handle, assign_v, copy_v] (initial_pass_state g_merge))))))
   = {(3, 0), (3, 1), (2, 1)}"
proof -
  have a: "op_type merge_n = ''Merge''" and b: "\<not> IsInWhileLoop merge_n"
    by (simp_all add: merge_n_def IsInWhileLoop_def)
  from merge_absorbs [OF a b, of "snd (process_ops [v_handle, assign_v, copy_v]
     (initial_pass_state g_merge))"] a b
  show ?thesis
    unfolding before_merge
    by (auto simp add: mark_must_run_def table_defs engine_defs g0_def g_merge_def op_is_stateful_def)
qed


text \<open>
  Claim C3 as stated fails: after a variable handle, an assignment and a non-stateful
  copy of the handle, the last user of the handle is the copy, which is not in the
  must-run set, and the merge still takes over as last user of the handle.
\<close>

theorem merge_absorbs_counterexample:
  "last_op_using_resource_tensor
     (snd (process_ops [v_handle, assign_v, copy_v] (initial_pass_state g_merge)))
     (Some (0, 0)) = Some copy_v
   \<and> copy_v \<notin> ops_which_must_run
         (snd (process_ops [v_handle, assign_v, copy_v] (initial_pass_state g_merge)))
   \<and> op_type merge_n = ''Merge'' \<and> \<not> IsInWhileLoop merge_n
   \<and> last_op_using_resource_tensor
       (snd (process_op merge_n
          (snd (process_ops [v_handle, assign_v, copy_v] (initial_pass_state g_merge)))))
       (Some (0, 0)) = Some merge_n"
  unfolding before_merge
  by (simp add: step_defs table_defs engine_defs g0_def g_merge_def)

lemma loop_no_resource:
  assumes "\<forall>inp\<in>set ins. dtype inp \<noteq> Resource"
  shows "resource_inputs_loop op ins acc = (None, acc)"
  using assms by (induction ins arbitrary: acc) (auto simp add: split_paired_all)

lemma process_consumer_no_resource:
  assumes "\<forall>inp\<in>set (inputs op). dtype inp \<noteq> Resource"
  shows "process_consumer op st =
           (None, chain_stateful op {} st)"
  by (simp add: process_consumer_def loop_no_resource [OF assms] add_control_inputs_def)

lemma sentinel_after_Nil: "sentinel_after l0 [] = l0"
  by (simp add: sentinel_after_def)

lemma sentinel_after_Cons:
  "sentinel_after l0 (a # pre) = sentinel_after (if chained a then Some a else l0) pre"
  by (simp add: sentinel_after_def)

lemma process_op_plain:
  assumes "\<forall>inp\<in>set (inputs op). dtype inp \<noteq> Resource"
  shows "process_op op st =
     (if IsInWhileLoop op then (None, st)
      else if raises op then (Some IndexError, mark_must_run op st)
      else if op_type op = ''Merge'' then (None, absorb_into_merge op (mark_must_run op st))
      else (None, chain_stateful op {} (mark_must_run op st)))"
proof -
  have c: "process_consumer op (mark_must_run op st) =
             (None, chain_stateful op {} (mark_must_run op st))"
    by (rule process_consumer_no_resource [OF assms])
  show ?thesis
  proof (cases "inputs op")
    case Nil
    then show ?thesis using c by (simp add: process_op_def Let_def raises_def)
  next
    case (Cons inp rest)
    then have "dtype inp \<noteq> Resource" using assms by simp
    then show ?thesis using c Cons by (simp add: process_op_def Let_def raises_def)
  qed
qed

lemma step_plain:
  assumes nores: "\<forall>inp\<in>set (inputs op). dtype inp \<noteq> Resource"
    and run: "process_op op st = (None, st1)"
  shows "operations (ps_graph st1) = operations (ps_graph st)"
    and "registered_ops (ps_graph st1) = registered_ops (ps_graph st)"
    and "ops_which_must_run st1 =
           must_run_after (registered_ops (ps_graph st)) (ops_which_must_run st) [op]"
    and "last_op_using_resource_tensor st1 None =
           (if chained op then Some op else last_op_using_resource_tensor st None)"
    and "\<not> raises op"
    and "control_edges (ps_graph st1) = control_edges (ps_graph st) \<union>
           {(x, c). x = op_id op \<and> \<not> IsInWhileLoop op \<and>
              (op_type op = ''Merge'' \<and>
                 c \<in> op_id ` must_run_at (registered_ops (ps_graph st)) (ops_which_must_run st) [] op
               \<or> chained op \<and>
                 (\<exists>l. last_op_using_resource_tensor st None = Some l \<and> c = op_id l))}"
proof -
  note p = process_op_plain [OF nores, of st]
  show r: "\<not> raises op" using run p by (auto simp add: raises_def split: if_splits)
  show "operations (ps_graph st1) = operations (ps_graph st)"
    using run p
    by (auto simp add: mark_must_run_def absorb_into_merge_def add_control_inputs_def
        chain_stateful_def ps_add_control_input_def add_control_input_def
        split: if_splits option.splits)
  show "registered_ops (ps_graph st1) = registered_ops (ps_graph st)"
    using run p
    by (auto simp add: mark_must_run_def absorb_into_merge_def add_control_inputs_def
        chain_stateful_def ps_add_control_input_def add_control_input_def
        split: if_splits option.splits)
  show "ops_which_must_run st1 =
           must_run_after (registered_ops (ps_graph st)) (ops_which_must_run st) [op]"
    using run p
    by (auto simp add: mark_must_run_def absorb_into_merge_def add_control_inputs_def
        chain_stateful_def ps_add_control_input_def add_control_input_def
        split: if_splits option.splits)
  show "last_op_using_resource_tensor st1 None =
           (if chained op then Some op else last_op_using_resource_tensor st None)"
    using run p
    by (auto simp add: mark_must_run_def absorb_into_merge_def add_control_inputs_def
        chain_stateful_def ps_add_control_input_def add_control_input_def chained_def
        split: if_splits option.splits)
  show "control_edges (ps_graph st1) = control_edges (ps_graph st) \<union>
           {(x, c). x = op_id op \<and> \<not> IsInWhileLoop op \<and>
              (op_type op = ''Merge'' \<and>
                 c \<in> op_id ` must_run_at (registered_ops (ps_graph st)) (ops_which_must_run st) [] op
               \<or> chained op \<and>
                 (\<exists>l. last_op_using_resource_tensor st None = Some l \<and> c = op_id l))}"
  proof (cases "IsInWhileLoop op")
    case True
    then show ?thesis using run p by (auto simp add: chained_def)
  next
    case False
    note nw = this
    show ?thesis
    proof (cases "op_type op = ''Merge''")
      case True
      then have "st1 = absorb_into_merge op (mark_must_run op st)"
        using run p nw r by simp
      then show ?thesis using True nw
        by (auto simp add: absorb_into_merge_def add_control_inputs_def mark_must_run_def
            must_run_at_def chained_def)
    next
      case False
      then have "st1 = chain_stateful op {} (mark_must_run op st)"
        using run p nw r by simp
      then show ?thesis using False nw
        by (auto simp add: chain_stateful_def ps_add_control_input_def add_control_input_def
            mark_must_run_def chained_def split: option.splits)
    qed
  qed
qed

lemma step_raises:
  assumes nores: "\<forall>inp\<in>set (inputs op). dtype inp \<noteq> Resource"
    and run: "process_op op st = (Some e, st1)"
  shows "raises op" and "ps_graph st1 = ps_graph st"
  using run process_op_plain [OF nores, of st]
  by (auto simp add: mark_must_run_def split: if_splits)

lemma split_Cons_ex:
  "(\<exists>pre op post. a # rest = pre @ op # post \<and> P pre op) \<longleftrightarrow>
     (P [] a \<or> (\<exists>pre op post. rest = pre @ op # post \<and> P (a # pre) op))"
proof
  assume "\<exists>pre op post. a # rest = pre @ op # post \<and> P pre op"
  then obtain pre op post where d: "a # rest = pre @ op # post" and P: "P pre op" by blast
  show "P [] a \<or> (\<exists>pre op post. rest = pre @ op # post \<and> P (a # pre) op)"
  proof (cases pre)
    case Nil
    with d P show ?thesis by simp
  next
    case (Cons b pre')
    with d P have "rest = pre' @ op # post" "P (a # pre') op" by simp_all
    then show ?thesis by blast
  qed
next
  assume "P [] a \<or> (\<exists>pre op post. rest = pre @ op # post \<and> P (a # pre) op)"
  then show "\<exists>pre op post. a # rest = pre @ op # post \<and> P pre op"
  proof
    assume "P [] a"
    then have "a # rest = [] @ a # rest \<and> P [] a" by simp
    then show ?thesis by blast
  next
    assume "\<exists>pre op post. rest = pre @ op # post \<and> P (a # pre) op"
    then obtain pre op post where "rest = pre @ op # post" "P (a # pre) op" by blast
    then have "a # rest = (a # pre) @ op # post \<and> P (a # pre) op" by simp
    then show ?thesis by blast
  qed
qed


lemma adds_edge_Cons:
  "adds_edge reg M l0 (a # pre) op x c \<longleftrightarrow>
     \<not> raises a \<and>
     adds_edge reg (must_run_after reg M [a]) (if chained a then Some a else l0) pre op x c"
  by (auto simp add: adds_edge_def must_run_at_def sentinel_after_Cons)

lemma adds_edge_raises: "raises a \<Longrightarrow> \<not> adds_edge reg M l0 [] a x c"
  by (auto simp add: adds_edge_def raises_def)

lemma edges_plain:
  assumes "\<forall>op\<in>set slice. \<forall>inp\<in>set (inputs op). dtype inp \<noteq> Resource"
  shows "operations (ps_graph (snd (process_ops slice st))) = operations (ps_graph st) \<and>
     (\<forall>x c. (x, c) \<in> control_edges (ps_graph (snd (process_ops slice st))) \<longleftrightarrow>
        (x, c) \<in> control_edges (ps_graph st) \<or>
        (\<exists>pre op post. slice = pre @ op # post \<and>
           adds_edge (registered_ops (ps_graph st)) (ops_which_must_run st)
             (last_op_using_resource_tensor st None) pre op x c))"
  using assms
proof (induction slice arbitrary: st)
  case Nil
  then show ?case by simp
next
  case (Cons a rest)
  obtain e st1 where p: "process_op a st = (e, st1)" by force
  from Cons.prems have na: "\<forall>inp\<in>set (inputs a). dtype inp \<noteq> Resource" by simp
  from Cons.prems have nr: "\<forall>op\<in>set rest. \<forall>inp\<in>set (inputs op). dtype inp \<noteq> Resource"
    by simp
  show ?case
  proof (cases e)
    case (Some err)
    with p have p': "process_op a st = (Some err, st1)" by simp
    note r = step_raises [OF na p']
    have f: "snd (process_ops (a # rest) st) = st1" using p' by simp
    show ?thesis
      unfolding f split_Cons_ex
      using r by (simp add: adds_edge_Cons adds_edge_raises)
  next
    case None
    with p have p': "process_op a st = (None, st1)" by simp
    note s = step_plain [OF na p']
    have f: "process_ops (a # rest) st = process_ops rest st1" using p' by simp
    note ih = Cons.IH [OF nr, of st1]
    have e0: "\<And>x c. (x, c) \<in> control_edges (ps_graph st1) \<longleftrightarrow>
        (x, c) \<in> control_edges (ps_graph st) \<or>
        adds_edge (registered_ops (ps_graph st)) (ops_which_must_run st)
             (last_op_using_resource_tensor st None) [] a x c"
      unfolding s(6) using s(5) by (auto simp add: adds_edge_def sentinel_after_Nil)
    show ?thesis
      unfolding f split_Cons_ex adds_edge_Cons
    proof (intro conjI allI)
      show "operations (ps_graph (snd (process_ops rest st1))) = operations (ps_graph st)"
        using ih s(1) by simp
    next
      fix x c
      have "(x, c) \<in> control_edges (ps_graph (snd (process_ops rest st1))) \<longleftrightarrow>
        (x, c) \<in> control_edges (ps_graph st1) \<or>
        (\<exists>pre op post. rest = pre @ op # post \<and>
           adds_edge (registered_ops (ps_graph st1)) (ops_which_must_run st1)
             (last_op_using_resource_tensor st1 None) pre op x c)"
        using ih by blast
      then show "(x, c) \<in> control_edges (ps_graph (snd (process_ops rest st1))) \<longleftrightarrow>
        (x, c) \<in> control_edges (ps_graph st) \<or>
        adds_edge (registered_ops (ps_graph st)) (ops_which_must_run st)
             (last_op_using_resource_tensor st None) [] a x c \<or>
        (\<exists>pre op post. rest = pre @ op # post \<and> \<not> raises a \<and>
           adds_edge (registered_ops (ps_graph st))
             (must_run_after (registered_ops (ps_graph st)) (ops_which_must_run st) [a])
             (if chained a then Some a else last_op_using_resource_tensor st None) pre op x c)"
        unfolding e0 s(2) s(3) s(4) using s(5) by simp
    qed
  qed
qed


lemma plain_error:
  assumes "\<forall>op\<in>set slice. \<forall>inp\<in>set (inputs op). dtype inp \<noteq> Resource"
  shows "fst (process_ops slice st) = (if \<exists>op\<in>set slice. raises op then Some IndexError else None)"
  using assms
proof (induction slice arbitrary: st)
  case Nil
  then show ?case by simp
next
  case (Cons a rest)
  from Cons.prems have na: "\<forall>inp\<in>set (inputs a). dtype inp \<noteq> Resource" by simp
  from Cons.prems have nr: "\<forall>op\<in>set rest. \<forall>inp\<in>set (inputs op). dtype inp \<noteq> Resource"
    by simp
  note p = process_op_plain [OF na, of st]
  show ?case
  proof (cases "raises a")
    case True
    then have "\<not> IsInWhileLoop a" by (simp add: raises_def)
    with True p show ?thesis by simp
  next
    case False
    then obtain st1 where "process_op a st = (None, st1)" using p by (auto split: if_splits)
    then show ?thesis using Cons.IH [OF nr, of st1] False by simp
  qed
qed

text \<open>
  Claim C4, as amended. When no operation of the slice has a resource-typed input, the
  loop creates no operation, it stops with an IndexError exactly when the slice holds a
  Switch without inputs outside loops, and the control edges it adds are exactly these:
  each Merge of the slice outside loops gets an edge to every operation of the must-run
  set at that point (the operations marked since the previous Merge, that Merge, and
  itself when it is marked), and each stateful, non-exempt operation with no control-flow
  context outside loops gets an edge to the previous such operation. Nothing is added at
  or after an operation that raises.
\<close>

theorem no_resource_inputs_edges:
  assumes "\<forall>op\<in>set slice. \<forall>inp\<in>set (inputs op). dtype inp \<noteq> Resource"
  shows "operations (ps_graph (snd (process_ops slice st))) = operations (ps_graph st) \<and>
     fst (process_ops slice st) =
       (if \<exists>op\<in>set slice. raises op then Some IndexError else None) \<and>
     (\<forall>x c. (x, c) \<in> control_edges (ps_graph (snd (process_ops slice st))) \<longleftrightarrow>
        (x, c) \<in> control_edges (ps_graph st) \<or>
        (\<exists>pre op post. slice = pre @ op # post \<and> (\<forall>p\<in>set pre. \<not> raises p) \<and>
           x = op_id op \<and> \<not> IsInWhileLoop op \<and>
           (op_type op = ''Merge'' \<and>
              c \<in> op_id ` must_run_at (registered_ops (ps_graph st)) (ops_which_must_run st) pre op
            \<or> chained op \<and> \<not> raises op \<and>
              (\<exists>l. sentinel_after (last_op_using_resource_tensor st None) pre = Some l \<and>
                   c = op_id l))))"
  using edges_plain [OF assms, of st] plain_error [OF assms, of st] unfolding adds_edge_def
  by simp

lemmas plain_defs = assign_values_def assign_indices_def merge_iv_def t_values_def t_indices_def
  c_values_def c_indices_def

theorem no_resource_inputs_edges_witness:
  "control_edges (ps_graph (snd (process_ops [assign_values, assign_indices, merge_iv]
      (initial_pass_state g_plain)))) = {(4, 3), (5, 3), (5, 4)}"
proof -
  have a: "\<forall>op\<in>set [assign_values, assign_indices, merge_iv].
             \<forall>inp\<in>set (inputs op). dtype inp \<noteq> Resource"
    by (simp add: plain_defs)
  have i: "control_edges (ps_graph (initial_pass_state g_plain)) = {}"
    "registered_ops (ps_graph (initial_pass_state g_plain)) = registered_ops g0"
    "ops_which_must_run (initial_pass_state g_plain) = {}"
    "last_op_using_resource_tensor (initial_pass_state g_plain) None = None"
    by (simp_all add: initial_pass_state_def g_plain_def g0_def)
  have f: "chained assign_values" "chained assign_indices" "\<not> chained merge_iv"
    "\<not> raises assign_values" "\<not> raises assign_indices" "\<not> raises merge_iv"
    "\<not> IsInWhileLoop assign_values" "\<not> IsInWhileLoop assign_indices"
    "\<not> IsInWhileLoop merge_iv"
    "op_type assign_values \<noteq> ''Merge''" "op_type assign_indices \<noteq> ''Merge''"
    "op_type merge_iv = ''Merge''"
    "op_id assign_values = 3" "op_id assign_indices = 4" "op_id merge_iv = 5"
    by (simp_all add: plain_defs chained_def raises_def IsInWhileLoop_def op_is_stateful_def
        table_defs)
  have m: "must_run_at (registered_ops g0) {} [assign_values, assign_indices] merge_iv =
             {assign_indices, assign_values}"
    by (simp add: must_run_at_def plain_defs g0_def IsInWhileLoop_def op_is_stateful_def
        table_defs)
  have s: "sentinel_after None [] = None"
    "sentinel_after None [assign_values] = Some assign_values"
    by (simp_all add: sentinel_after_def f)
  note t = no_resource_inputs_edges [OF a, of "initial_pass_state g_plain", THEN conjunct2,
      THEN conjunct2, unfolded i]
  show ?thesis
  proof (rule set_eqI, clarify)
    fix x c
    show "(x, c) \<in> control_edges (ps_graph (snd (process_ops [assign_values, assign_indices,
        merge_iv] (initial_pass_state g_plain)))) \<longleftrightarrow> (x, c) \<in> {(4, 3), (5, 3), (5, 4)}"
      unfolding t [rule_format] split_Cons_ex
      using f m s by auto
  qed
qed



text \<open>
  Claim C4 as stated fails: two variable handles, with no inputs at all, are chained by a
  control edge from the second to the first.
\<close>

theorem no_resource_inputs_counterexample:
  "inputs v_handle = [] \<and> inputs w_handle = [] \<and> control_edges g_handles = {} \<and>
   process_ops [v_handle, w_handle] (initial_pass_state g_handles) =
     (None,
      \<lparr>ps_graph = g_handles\<lparr>control_edges := {(1, 0)}\<rparr>,
       ops_which_must_run = {w_handle, v_handle},
       last_op_using_resource_tensor = [None \<mapsto> w_handle],
       merge_for_resource = Map.empty\<rparr>)"
  by (simp add: step_defs table_defs engine_defs g0_def g_handles_def)

section \<open>Exempt kinds\<close>

lemma twin_last:
  assumes "twin_states op op' D st st'" and "op_id op' = op_id op"
  shows "map_option op_id (last_op_using_resource_tensor st' k) =
         map_option op_id (last_op_using_resource_tensor st k)"
  using assms unfolding twin_states_def by (metis option.simps(9))

lemma resolve_switch_twin:
  assumes t: "twin_states op op' D st st'" and ids: "op_id op' = op_id op"
  shows "fst (resolve_switch S k st') = fst (resolve_switch S k st) \<and>
         twin_states op op' D (snd (resolve_switch S k st)) (snd (resolve_switch S k st'))"
proof (cases "control_flow_context S")
  case None
  then show ?thesis using t by (simp add: resolve_switch_def Let_def twin_states_def)
next
  case (Some c)
  from t have g: "ps_graph st' = ps_graph st" and m: "merge_for_resource st' = merge_for_resource st"
    and r: "ops_which_must_run st' = ops_which_must_run st \<union> D"
    and l: "\<And>k. last_op_using_resource_tensor st' k = last_op_using_resource_tensor st k \<or>
           last_op_using_resource_tensor st k = Some op \<and>
           last_op_using_resource_tensor st' k = Some op'"
    unfolding twin_states_def by blast+
  have e: "add_control_input S op' = add_control_input S op"
    using ids by (simp add: add_control_input_def fun_eq_iff)
  show ?thesis
    using l [of "Some k"]
  proof
    assume "last_op_using_resource_tensor st' (Some k) = last_op_using_resource_tensor st (Some k)"
    then show ?thesis using Some g m r l
      by (simp add: resolve_switch_def Let_def twin_states_def ps_add_control_input_def
          split: option.splits)
  next
    assume "last_op_using_resource_tensor st (Some k) = Some op \<and>
           last_op_using_resource_tensor st' (Some k) = Some op'"
    then show ?thesis using Some g m r l e
      by (simp add: resolve_switch_def Let_def twin_states_def ps_add_control_input_def
          split: option.splits)
  qed
qed


lemma process_switch_twin:
  assumes ids: "op_id op' = op_id op"
  shows "twin_states op op' D st st' \<Longrightarrow>
     fst (process_switch S st') = fst (process_switch S st) \<and>
     twin_states op op' D (snd (process_switch S st)) (snd (process_switch S st'))"
proof (induction S st arbitrary: st' rule: process_switch.induct)
  case (1 S st)
  note t = "1.prems"
  show ?case
  proof (cases "inputs S")
    case Nil
    then show ?thesis using t
      by (simp add: process_switch.simps [of S st] process_switch.simps [of S st'])
  next
    case (Cons inp r)
    define rc where "rc = (if dtype inp = Resource \<and> op_type (t_op inp) = ''Switch''
                 then process_switch (t_op inp) st else (None, st))"
    define rc' where "rc' = (if dtype inp = Resource \<and> op_type (t_op inp) = ''Switch''
                 then process_switch (t_op inp) st' else (None, st'))"
    have R1: "fst rc' = fst rc \<and> twin_states op op' D (snd rc) (snd rc')"
    proof (cases "dtype inp = Resource \<and> op_type (t_op inp) = ''Switch''")
      case True
      from "1.IH" [OF Cons True t] show ?thesis using True by (simp add: rc_def rc'_def)
    next
      case False
      then have "rc = (None, st)" "rc' = (None, st')" by (auto simp add: rc_def rc'_def)
      then show ?thesis using t by simp
    qed
    obtain e1 st1 where rc: "rc = (e1, st1)" by force
    obtain e1' st1' where rc': "rc' = (e1', st1')" by force
    from R1 rc rc' have e: "e1' = e1" and t1: "twin_states op op' D st1 st1'" by simp_all
    have u: "process_switch S st =
       (case rc of (Some e, st1) \<Rightarrow> (Some e, st1)
        | (None, st1) \<Rightarrow>
            (case outputs S of [] \<Rightarrow> (Some IndexError, st1)
             | output # _ \<Rightarrow>
                 if merge_for_resource st1 (tensor_id output) \<noteq> None then (None, st1)
                 else resolve_switch S (tensor_id inp) st1))"
      unfolding rc_def using Cons by (simp add: process_switch.simps [of S st])
    have u': "process_switch S st' =
       (case rc' of (Some e, st1) \<Rightarrow> (Some e, st1)
        | (None, st1) \<Rightarrow>
            (case outputs S of [] \<Rightarrow> (Some IndexError, st1)
             | output # _ \<Rightarrow>
                 if merge_for_resource st1 (tensor_id output) \<noteq> None then (None, st1)
                 else resolve_switch S (tensor_id inp) st1))"
      unfolding rc'_def using Cons by (simp add: process_switch.simps [of S st'])
    have mf: "merge_for_resource st1' = merge_for_resource st1"
      using t1 by (simp add: twin_states_def)
    show ?thesis
    proof (cases e1)
      case (Some err)
      then show ?thesis unfolding u u' rc rc' e using t1 by simp
    next
      case None
      show ?thesis
      proof (cases "outputs S")
        case Nil
        then show ?thesis unfolding u u' rc rc' e using t1 None by simp
      next
        case (Cons out r')
        show ?thesis
        proof (cases "merge_for_resource st1 (tensor_id out) \<noteq> None")
          case True
          then show ?thesis unfolding u u' rc rc' e using t1 None Cons mf by simp
        next
          case False
          then show ?thesis unfolding u u' rc rc' e
            using resolve_switch_twin [OF t1 ids, of S "tensor_id inp"] None Cons mf by simp
        qed
      qed
    qed
  qed
qed


lemma use_resource_twin:
  assumes t: "twin_states op op' D st st'" and ids: "op_id op' = op_id op"
  shows "twin_states op op' D (use_resource op inp st) (use_resource op' inp st')"
proof -
  have e: "\<And>m. add_control_input m op' = add_control_input m op"
    using ids by (simp add: add_control_input_def fun_eq_iff)
  show ?thesis
    using t by (simp add: use_resource_def Let_def twin_states_def ps_add_control_input_def e
        split: option.splits)
qed

lemma image_filter_insert:
  "f ` {c \<in> insert a A. P c} = (if P a then insert (f a) (f ` {c \<in> A. P c}) else f ` {c \<in> A. P c})"
  by auto

lemma loop_twin:
  assumes ids: "op_id op' = op_id op"
    and ctx: "control_flow_context op' = control_flow_context op"
  shows "twin_states op op' D st st' \<Longrightarrow>
     op_id ` {c \<in> ci'. control_flow_context c = control_flow_context op} =
     op_id ` {c \<in> ci. control_flow_context c = control_flow_context op} \<Longrightarrow>
     resource_inputs_loop op ins (ri, ci, st) = (e, r1, c1, s1) \<Longrightarrow>
     resource_inputs_loop op' ins (ri, ci', st') = (e', r1', c1', s1') \<Longrightarrow>
     e' = e \<and> r1' = r1 \<and>
     op_id ` {c \<in> c1'. control_flow_context c = control_flow_context op} =
     op_id ` {c \<in> c1. control_flow_context c = control_flow_context op} \<and>
     twin_states op op' D s1 s1'"
proof (induction ins arbitrary: ri ci ci' st st')
  case Nil
  then show ?case by simp
next
  case (Cons inp rest)
  show ?case
  proof (cases "dtype inp \<noteq> Resource \<or> tensor_id inp \<in> ri")
    case True
    from Cons.prems(3) True have a: "resource_inputs_loop op rest (ri, ci, st) = (e, r1, c1, s1)"
      by (simp only: loop_skip)
    from Cons.prems(4) True have b: "resource_inputs_loop op' rest (ri, ci', st') = (e', r1', c1', s1')"
      by (simp only: loop_skip)
    from Cons.IH [OF Cons.prems(1,2) a b] show ?thesis .
  next
    case False
    then have f: "dtype inp = Resource" "tensor_id inp \<notin> ri" by simp_all
    define rc where "rc = (if op_type (t_op inp) = ''Switch'' then process_switch (t_op inp) st
               else (None, st))"
    define rc' where "rc' = (if op_type (t_op inp) = ''Switch'' then process_switch (t_op inp) st'
               else (None, st'))"
    obtain e1 st1 where rc: "rc = (e1, st1)" by force
    obtain e1' st1' where rc': "rc' = (e1', st1')" by force
    have "fst rc' = fst rc \<and> twin_states op op' D (snd rc) (snd rc')"
    proof (cases "op_type (t_op inp) = ''Switch''")
      case True
      then show ?thesis
        using process_switch_twin [OF ids Cons.prems(1), of "t_op inp"] by (simp add: rc_def rc'_def)
    next
      case False
      then show ?thesis using Cons.prems(1) by (simp add: rc_def rc'_def)
    qed
    with rc rc' have e1: "e1' = e1" and t1: "twin_states op op' D st1 st1'" by simp_all
    note tk = loop_take [OF f rc [unfolded rc_def], of op rest ci]
    note tk' = loop_take [OF f rc' [unfolded rc'_def], of op' rest ci']
    show ?thesis
    proof (cases e1)
      case (Some err)
      with Cons.prems(3,4) tk tk' e1 t1 Cons.prems(2) show ?thesis by simp
    next
      case None
      define n where "n = (case last_op_using_resource_tensor st1 (Some (tensor_id inp)) of
                Some l \<Rightarrow> if control_flow_context l = control_flow_context op
                          then insert l ci else ci
              | None \<Rightarrow> ci)"
      define n' where "n' = (case last_op_using_resource_tensor st1' (Some (tensor_id inp)) of
                Some l \<Rightarrow> if control_flow_context l = control_flow_context op'
                          then insert l ci' else ci'
              | None \<Rightarrow> ci')"
      have a: "resource_inputs_loop op rest (insert (tensor_id inp) ri, n, use_resource op inp st1)
                 = (e, r1, c1, s1)"
        using Cons.prems(3) tk None by (simp add: n_def)
      have b: "resource_inputs_loop op' rest (insert (tensor_id inp) ri, n', use_resource op' inp st1')
                 = (e', r1', c1', s1')"
        using Cons.prems(4) tk' None e1 by (simp add: n'_def)
      have l: "last_op_using_resource_tensor st1' (Some (tensor_id inp)) =
                 last_op_using_resource_tensor st1 (Some (tensor_id inp)) \<or>
               last_op_using_resource_tensor st1 (Some (tensor_id inp)) = Some op \<and>
               last_op_using_resource_tensor st1' (Some (tensor_id inp)) = Some op'"
        using t1 unfolding twin_states_def by blast
      have c: "op_id ` {c \<in> n'. control_flow_context c = control_flow_context op} =
               op_id ` {c \<in> n. control_flow_context c = control_flow_context op}"
        using l
      proof
        assume "last_op_using_resource_tensor st1' (Some (tensor_id inp)) =
                 last_op_using_resource_tensor st1 (Some (tensor_id inp))"
        then show ?thesis using Cons.prems(2) ctx
          by (auto simp add: n_def n'_def split: option.splits)
      next
        assume "last_op_using_resource_tensor st1 (Some (tensor_id inp)) = Some op \<and>
               last_op_using_resource_tensor st1' (Some (tensor_id inp)) = Some op'"
        then have n1: "n = insert op ci" and n2: "n' = insert op' ci'"
          using ctx by (simp_all add: n_def n'_def)
        show ?thesis unfolding n1 n2 image_filter_insert using Cons.prems(2) ctx ids by simp
      qed
      from Cons.IH [OF use_resource_twin [OF t1 ids] c a b] show ?thesis .
    qed
  qed
qed

lemma loop_keys:
  "resource_inputs_loop X ins (ri, ci, st) = (None, r1, c1, s1) \<Longrightarrow>
   ri \<subseteq> r1 \<and> (\<forall>inp\<in>set ins. dtype inp = Resource \<longrightarrow> tensor_id inp \<in> r1)"
proof (induction ins arbitrary: ri ci st)
  case Nil
  then show ?case by simp
next
  case (Cons inp rest)
  show ?case
  proof (cases "dtype inp \<noteq> Resource \<or> tensor_id inp \<in> ri")
    case True
    with Cons.prems have "resource_inputs_loop X rest (ri, ci, st) = (None, r1, c1, s1)"
      by (simp only: loop_skip)
    from Cons.IH [OF this] True show ?thesis by auto
  next
    case False
    then have f: "dtype inp = Resource" "tensor_id inp \<notin> ri" by simp_all
    obtain e1 st1 where rc: "(if op_type (t_op inp) = ''Switch'' then process_switch (t_op inp) st
               else (None, st)) = (e1, st1)" by force
    note tk = loop_take [OF f rc, of X rest ci]
    show ?thesis
    proof (cases e1)
      case (Some err)
      with Cons.prems tk show ?thesis by simp
    next
      case None
      with Cons.prems tk obtain ci1 where
        "resource_inputs_loop X rest (insert (tensor_id inp) ri, ci1, use_resource X inp st1)
           = (None, r1, c1, s1)"
        by simp
      from Cons.IH [OF this] show ?thesis by auto
    qed
  qed
qed


lemma add_control_inputs_ids:
  "add_control_inputs X cs g = g\<lparr>control_edges := Pair (op_id X) ` (op_id ` cs) \<union> control_edges g\<rparr>"
  by (simp add: add_control_inputs_def image_image)

lemma process_consumer_twin:
  assumes ids: "op_id op' = op_id op"
    and ctx: "control_flow_context op' = control_flow_context op"
    and ins: "inputs op' = inputs op"
    and t: "twin_states op op' D st st'"
    and res: "\<exists>inp\<in>set (inputs op). dtype inp = Resource"
  shows "fst (process_consumer op' st') = fst (process_consumer op st) \<and>
         twin_states op op' D (snd (process_consumer op st)) (snd (process_consumer op' st'))"
proof -
  obtain e r1 c1 s1 where a: "resource_inputs_loop op (inputs op) ({}, {}, st) = (e, r1, c1, s1)"
    by (metis prod_cases4)
  obtain e' r1' c1' s1' where
    b: "resource_inputs_loop op' (inputs op) ({}, {}, st') = (e', r1', c1', s1')"
    by (metis prod_cases4)
  have "op_id ` {c \<in> {}. control_flow_context c = control_flow_context op} =
        op_id ` {c \<in> {}. control_flow_context c = control_flow_context op}" by simp
  from loop_twin [OF ids ctx t this a b] have
    e: "e' = e" and r: "r1' = r1" and
    c: "op_id ` {c \<in> c1'. control_flow_context c = control_flow_context op} =
        op_id ` {c \<in> c1. control_flow_context c = control_flow_context op}" and
    t1: "twin_states op op' D s1 s1'"
    by simp_all
  show ?thesis
  proof (cases e)
    case (Some err)
    then show ?thesis using a b e t1 ins by (simp add: process_consumer_def)
  next
    case None
    with a have "resource_inputs_loop op (inputs op) ({}, {}, st) = (None, r1, c1, s1)" by simp
    from loop_keys [OF this] res have ne: "r1 \<noteq> {}" by auto
    have ch: "chain_stateful op r1 s1 = s1" "chain_stateful op' r1 s1' = s1'"
      using ne by (simp_all add: chain_stateful_def)
    have pa: "process_consumer op st =
       (None, s1\<lparr>ps_graph := add_control_inputs op
                {c \<in> c1. control_flow_context c = control_flow_context op} (ps_graph s1)\<rparr>)"
      using a None ch by (simp add: process_consumer_def Let_def)
    have pb: "process_consumer op' st' =
       (None, s1'\<lparr>ps_graph := add_control_inputs op'
                {c \<in> c1'. control_flow_context c = control_flow_context op} (ps_graph s1')\<rparr>)"
      using b None e r ch ins ctx by (simp add: process_consumer_def Let_def)
    show ?thesis
      unfolding pa pb add_control_inputs_ids c ids
      using t1 by (simp add: twin_states_def)
  qed
qed


text \<open>
  Claim C7. An operation outside loops whose kind is in one of the three exemption tables
  and is registered is not marked as must-run, whatever its stateful flag, and processing
  it does not put it into the must-run set. If it has a resource input, it is tracked
  exactly like any operation of another kind (neither Switch nor Merge) with the same id,
  inputs and context put in its place: both runs end with the same error or none, the
  same graph (the same merges created for the switches behind the inputs, the same
  control edges), the same recorded merges, must-run sets that differ only by the
  marking of the other operation, and last users that agree except that the one run
  records the exempt operation where the other records its twin. In particular, when
  none of its resource inputs comes from a Switch, it becomes the last user of each of its
  resource inputs, it gets a control input on the previous last user that shares its
  context, and the merge recorded for the input gets a control input on it.
\<close>

theorem exempt_op:
  assumes "op_type op \<in> set ASYNC_STATEFUL_OPS \<union> set LEGACY_RANDOM_OPS \<union>
             set ORDER_INSENSITIVE_STATEFUL_OPS"
    and "op_type op \<in> registered_ops (ps_graph st)" and "\<not> IsInWhileLoop op"
  shows "mark_must_run op st = st \<and>
     (op \<notin> ops_which_must_run st \<longrightarrow> op \<notin> ops_which_must_run (snd (process_op op st))) \<and>
     (\<forall>op'. op_id op' = op_id op \<and> inputs op' = inputs op \<and>
            control_flow_context op' = control_flow_context op \<and>
            op_type op' \<noteq> ''Switch'' \<and> op_type op' \<noteq> ''Merge'' \<and>
            (\<exists>inp\<in>set (inputs op). dtype inp = Resource) \<longrightarrow>
        fst (process_op op' st) = fst (process_op op st) \<and>
        ps_graph (snd (process_op op' st)) = ps_graph (snd (process_op op st)) \<and>
        merge_for_resource (snd (process_op op' st)) =
          merge_for_resource (snd (process_op op st)) \<and>
        ops_which_must_run (snd (process_op op' st)) =
          ops_which_must_run (snd (process_op op st)) \<union>
          (if op_type op' \<notin> registered_ops (ps_graph st) \<or> op_is_stateful op' then {op'}
           else {}) \<and>
        (\<forall>k. last_op_using_resource_tensor (snd (process_op op' st)) k =
               last_op_using_resource_tensor (snd (process_op op st)) k \<or>
             last_op_using_resource_tensor (snd (process_op op st)) k = Some op \<and>
             last_op_using_resource_tensor (snd (process_op op' st)) k = Some op')) \<and>
     (switch_free op \<longrightarrow>
        (\<forall>inp\<in>set (inputs op). dtype inp = Resource \<longrightarrow>
           fst (process_op op st) = None \<and>
           last_op_using_resource_tensor (snd (process_op op st)) (Some (tensor_id inp)) = Some op \<and>
           (\<forall>l. last_op_using_resource_tensor st (Some (tensor_id inp)) = Some l \<and>
                control_flow_context l = control_flow_context op \<longrightarrow>
                (op_id op, op_id l) \<in> control_edges (ps_graph (snd (process_op op st)))) \<and>
           (\<forall>m. merge_for_resource st (tensor_id inp) = Some m \<longrightarrow>
                (op_id m, op_id op) \<in> control_edges (ps_graph (snd (process_op op st))))))"
proof -
  note ex = exempt_not_stateful [OF assms(1)]
  have m: "mark_must_run op st = st"
    using assms(2) ex(1) by (simp add: mark_must_run_def)
  have p: "process_op op st = process_consumer op st"
    using process_op_consumer [OF assms(3) ex(2,3), of st] m by simp
  have n: "op \<notin> ops_which_must_run st \<longrightarrow> op \<notin> ops_which_must_run (snd (process_op op st))"
    using must_run_process_consumer [of op st] ex(3) unfolding p by auto
  have w: "\<forall>op'. op_id op' = op_id op \<and> inputs op' = inputs op \<and>
            control_flow_context op' = control_flow_context op \<and>
            op_type op' \<noteq> ''Switch'' \<and> op_type op' \<noteq> ''Merge'' \<and>
            (\<exists>inp\<in>set (inputs op). dtype inp = Resource) \<longrightarrow>
        fst (process_op op' st) = fst (process_op op st) \<and>
        ps_graph (snd (process_op op' st)) = ps_graph (snd (process_op op st)) \<and>
        merge_for_resource (snd (process_op op' st)) =
          merge_for_resource (snd (process_op op st)) \<and>
        ops_which_must_run (snd (process_op op' st)) =
          ops_which_must_run (snd (process_op op st)) \<union>
          (if op_type op' \<notin> registered_ops (ps_graph st) \<or> op_is_stateful op' then {op'}
           else {}) \<and>
        (\<forall>k. last_op_using_resource_tensor (snd (process_op op' st)) k =
               last_op_using_resource_tensor (snd (process_op op st)) k \<or>
             last_op_using_resource_tensor (snd (process_op op st)) k = Some op \<and>
             last_op_using_resource_tensor (snd (process_op op' st)) k = Some op')"
  proof (intro allI impI)
    fix op'
    assume h: "op_id op' = op_id op \<and> inputs op' = inputs op \<and>
            control_flow_context op' = control_flow_context op \<and>
            op_type op' \<noteq> ''Switch'' \<and> op_type op' \<noteq> ''Merge'' \<and>
            (\<exists>inp\<in>set (inputs op). dtype inp = Resource)"
    define D where "D = (if op_type op' \<notin> registered_ops (ps_graph st) \<or> op_is_stateful op'
                         then {op'} else {})"
    have nw: "\<not> IsInWhileLoop op'" using assms(3) h by (simp add: IsInWhileLoop_def)
    have p': "process_op op' st = process_consumer op' (mark_must_run op' st)"
      using process_op_consumer [OF nw, of st] h by simp
    have t: "twin_states op op' D st (mark_must_run op' st)"
      by (auto simp add: twin_states_def mark_must_run_def D_def)
    from h have ids: "op_id op' = op_id op" and ctx: "control_flow_context op' = control_flow_context op"
      and ins: "inputs op' = inputs op" and res: "\<exists>inp\<in>set (inputs op). dtype inp = Resource"
      by simp_all
    from process_consumer_twin [OF ids ctx ins t res]
    show "fst (process_op op' st) = fst (process_op op st) \<and>
        ps_graph (snd (process_op op' st)) = ps_graph (snd (process_op op st)) \<and>
        merge_for_resource (snd (process_op op' st)) =
          merge_for_resource (snd (process_op op st)) \<and>
        ops_which_must_run (snd (process_op op' st)) =
          ops_which_must_run (snd (process_op op st)) \<union>
          (if op_type op' \<notin> registered_ops (ps_graph st) \<or> op_is_stateful op' then {op'}
           else {}) \<and>
        (\<forall>k. last_op_using_resource_tensor (snd (process_op op' st)) k =
               last_op_using_resource_tensor (snd (process_op op st)) k \<or>
             last_op_using_resource_tensor (snd (process_op op st)) k = Some op \<and>
             last_op_using_resource_tensor (snd (process_op op' st)) k = Some op')"
      unfolding p p' twin_states_def D_def by simp
  qed
  have t: "switch_free op \<longrightarrow>
        (\<forall>inp\<in>set (inputs op). dtype inp = Resource \<longrightarrow>
           fst (process_op op st) = None \<and>
           last_op_using_resource_tensor (snd (process_op op st)) (Some (tensor_id inp)) = Some op \<and>
           (\<forall>l. last_op_using_resource_tensor st (Some (tensor_id inp)) = Some l \<and>
                control_flow_context l = control_flow_context op \<longrightarrow>
                (op_id op, op_id l) \<in> control_edges (ps_graph (snd (process_op op st)))) \<and>
           (\<forall>m. merge_for_resource st (tensor_id inp) = Some m \<longrightarrow>
                (op_id m, op_id op) \<in> control_edges (ps_graph (snd (process_op op st)))))"
    unfolding p using consumer_tracking [of op _ st] by blast
  show ?thesis
    apply (intro conjI)
    apply (rule m)
    apply (rule n)
    apply (rule w)
    apply (rule t)
    done
qed

lemma before_rand_t:
  "process_ops [v_handle, pred_c, switch_v] (initial_pass_state g_rand_cond) =
     (None,
      \<lparr>ps_graph = g_rand_cond, ops_which_must_run = {v_handle},
       last_op_using_resource_tensor = [None \<mapsto> v_handle],
       merge_for_resource = Map.empty\<rparr>)"
  by (simp add: step_defs table_defs engine_defs g0_def g_rand_cond_def cond_defs)


lemma before_rand:
  "process_ops [v_handle, assign_v] (initial_pass_state g_rand) =
     (None,
      \<lparr>ps_graph = g_rand,
       ops_which_must_run = {assign_v, v_handle},
       last_op_using_resource_tensor = [Some (0, 0) \<mapsto> assign_v, None \<mapsto> v_handle],
       merge_for_resource = Map.empty\<rparr>)"
  by (simp add: step_defs table_defs engine_defs g0_def g_rand_def rand_v_def fun_upd_twist)

theorem exempt_op_witness:
  "(is_stateful rand_t \<and>
   rand_t \<notin> ops_which_must_run
     (snd (process_op rand_t
        (snd (process_ops [v_handle, pred_c, switch_v] (initial_pass_state g_rand_cond))))) \<and>
   operations (ps_graph
     (snd (process_op rand_t
        (snd (process_ops [v_handle, pred_c, switch_v] (initial_pass_state g_rand_cond)))))) =
     [v_handle, pred_c, switch_v, rand_t, merge_4] \<and>
   ps_graph
     (snd (process_op assign_t
        (snd (process_ops [v_handle, pred_c, switch_v] (initial_pass_state g_rand_cond))))) =
   ps_graph
     (snd (process_op rand_t
        (snd (process_ops [v_handle, pred_c, switch_v] (initial_pass_state g_rand_cond))))) \<and>
   ops_which_must_run
     (snd (process_op assign_t
        (snd (process_ops [v_handle, pred_c, switch_v] (initial_pass_state g_rand_cond))))) =
   insert assign_t (ops_which_must_run
     (snd (process_op rand_t
        (snd (process_ops [v_handle, pred_c, switch_v] (initial_pass_state g_rand_cond))))))) \<and>
   (is_stateful rand_v \<and>
   rand_v \<notin> ops_which_must_run
     (snd (process_op rand_v (snd (process_ops [v_handle, assign_v] (initial_pass_state g_rand))))) \<and>
   last_op_using_resource_tensor
     (snd (process_op rand_v (snd (process_ops [v_handle, assign_v] (initial_pass_state g_rand)))))
     (Some (0, 0)) = Some rand_v \<and>
   (2, 1) \<in> control_edges (ps_graph
     (snd (process_op rand_v (snd (process_ops [v_handle, assign_v] (initial_pass_state g_rand)))))))"
proof -
  have fed: "is_stateful rand_t \<and>
   rand_t \<notin> ops_which_must_run
     (snd (process_op rand_t
        (snd (process_ops [v_handle, pred_c, switch_v] (initial_pass_state g_rand_cond))))) \<and>
   operations (ps_graph
     (snd (process_op rand_t
        (snd (process_ops [v_handle, pred_c, switch_v] (initial_pass_state g_rand_cond)))))) =
     [v_handle, pred_c, switch_v, rand_t, merge_4] \<and>
   ps_graph
     (snd (process_op assign_t
        (snd (process_ops [v_handle, pred_c, switch_v] (initial_pass_state g_rand_cond))))) =
   ps_graph
     (snd (process_op rand_t
        (snd (process_ops [v_handle, pred_c, switch_v] (initial_pass_state g_rand_cond))))) \<and>
   ops_which_must_run
     (snd (process_op assign_t
        (snd (process_ops [v_handle, pred_c, switch_v] (initial_pass_state g_rand_cond))))) =
   insert assign_t (ops_which_must_run
     (snd (process_op rand_t
        (snd (process_ops [v_handle, pred_c, switch_v] (initial_pass_state g_rand_cond))))))"
  proof -
    let ?st = "snd (process_ops [v_handle, pred_c, switch_v] (initial_pass_state g_rand_cond))"
    have a: "op_type rand_t \<in> set ASYNC_STATEFUL_OPS \<union> set LEGACY_RANDOM_OPS \<union>
               set ORDER_INSENSITIVE_STATEFUL_OPS"
      by (simp add: rand_t_def table_defs)
    have b: "op_type rand_t \<in> registered_ops (ps_graph ?st)"
      unfolding before_rand_t by (simp add: rand_t_def g_rand_cond_def g0_def)
    have c: "\<not> IsInWhileLoop rand_t" by (simp add: rand_t_def IsInWhileLoop_def cond_defs)
    have d: "op_id assign_t = op_id rand_t \<and> inputs assign_t = inputs rand_t \<and>
              control_flow_context assign_t = control_flow_context rand_t \<and>
              op_type assign_t \<noteq> ''Switch'' \<and> op_type assign_t \<noteq> ''Merge'' \<and>
              (\<exists>inp\<in>set (inputs rand_t). dtype inp = Resource)"
      by (simp add: rand_t_def assign_t_def)
    have e: "op_is_stateful assign_t" "is_stateful rand_t" "rand_t \<notin> ops_which_must_run ?st"
      unfolding before_rand_t
      by (simp_all add: rand_t_def assign_t_def op_is_stateful_def table_defs engine_defs)
    have f: "operations (ps_graph (snd (process_op rand_t ?st))) =
               [v_handle, pred_c, switch_v, rand_t, merge_4]"
      unfolding before_rand_t
      by (simp add: step_defs table_defs engine_defs g0_def g_rand_cond_def cond_defs rand_t_def
          process_switch_unchained switch_defs)
    note t = exempt_op [OF a b c]
    from t have 1: "rand_t \<notin> ops_which_must_run (snd (process_op rand_t ?st))"
      using e(3) by blast
    from t d have 2: "ps_graph (snd (process_op assign_t ?st)) = ps_graph (snd (process_op rand_t ?st))"
      by blast
    from t d have "ops_which_must_run (snd (process_op assign_t ?st)) =
            ops_which_must_run (snd (process_op rand_t ?st)) \<union>
            (if op_type assign_t \<notin> registered_ops (ps_graph ?st) \<or> op_is_stateful assign_t
             then {assign_t} else {})"
      by blast
    then have 3: "ops_which_must_run (snd (process_op assign_t ?st)) =
       insert assign_t (ops_which_must_run (snd (process_op rand_t ?st)))"
      using e(1) by simp
    from e(2) 1 f 2 3 show ?thesis by blast
  qed
  have free: "is_stateful rand_v \<and>
   rand_v \<notin> ops_which_must_run
     (snd (process_op rand_v (snd (process_ops [v_handle, assign_v] (initial_pass_state g_rand))))) \<and>
   last_op_using_resource_tensor
     (snd (process_op rand_v (snd (process_ops [v_handle, assign_v] (initial_pass_state g_rand)))))
     (Some (0, 0)) = Some rand_v \<and>
   (2, 1) \<in> control_edges (ps_graph
     (snd (process_op rand_v (snd (process_ops [v_handle, assign_v] (initial_pass_state g_rand))))))"
  proof -
    let ?st = "snd (process_ops [v_handle, assign_v] (initial_pass_state g_rand))"
    have a: "op_type rand_v \<in> set ASYNC_STATEFUL_OPS \<union> set LEGACY_RANDOM_OPS \<union>
               set ORDER_INSENSITIVE_STATEFUL_OPS"
      by (simp add: rand_v_def table_defs)
    have b: "op_type rand_v \<in> registered_ops (ps_graph ?st)"
      unfolding before_rand by (simp add: rand_v_def g_rand_def g0_def)
    have c: "\<not> IsInWhileLoop rand_v" by (simp add: rand_v_def IsInWhileLoop_def)
    have d: "switch_free rand_v" by (simp add: switch_free_def rand_v_def engine_defs)
    have i: "v_resource \<in> set (inputs rand_v)" "dtype v_resource = Resource"
      "tensor_id v_resource = (0, 0)"
      by (simp_all add: rand_v_def engine_defs tensor_id_def)
    have l: "last_op_using_resource_tensor ?st (Some (0, 0)) = Some assign_v"
      "control_flow_context assign_v = control_flow_context rand_v" "op_id assign_v = 1"
      "op_id rand_v = 2" "rand_v \<notin> ops_which_must_run ?st" "is_stateful rand_v"
      unfolding before_rand by (simp_all add: rand_v_def engine_defs)
    note t = exempt_op [OF a b c]
    from t l(5) have 1: "rand_v \<notin> ops_which_must_run (snd (process_op rand_v ?st))" by blast
    from t d have "\<forall>inp\<in>set (inputs rand_v). dtype inp = Resource \<longrightarrow>
             fst (process_op rand_v ?st) = None \<and>
             last_op_using_resource_tensor (snd (process_op rand_v ?st)) (Some (tensor_id inp)) = Some rand_v \<and>
             (\<forall>l. last_op_using_resource_tensor ?st (Some (tensor_id inp)) = Some l \<and>
                  control_flow_context l = control_flow_context rand_v \<longrightarrow>
                  (op_id rand_v, op_id l) \<in> control_edges (ps_graph (snd (process_op rand_v ?st)))) \<and>
             (\<forall>m. merge_for_resource ?st (tensor_id inp) = Some m \<longrightarrow>
                  (op_id m, op_id rand_v) \<in> control_edges (ps_graph (snd (process_op rand_v ?st))))"
      by blast
    from this [rule_format, OF i(1) i(2)] have
      2: "last_op_using_resource_tensor (snd (process_op rand_v ?st)) (Some (0, 0)) = Some rand_v"
      and 3: "\<And>l. last_op_using_resource_tensor ?st (Some (0, 0)) = Some l \<Longrightarrow>
                  control_flow_context l = control_flow_context rand_v \<Longrightarrow>
                  (op_id rand_v, op_id l) \<in> control_edges (ps_graph (snd (process_op rand_v ?st)))"
      unfolding i(3) by blast+
    from 3 [OF l(1) l(2)] have 4: "(2, 1) \<in> control_edges (ps_graph (snd (process_op rand_v ?st)))"
      unfolding l(3) l(4) .
    from l(6) 1 2 4 show ?thesis by blast
  qed
  from fed free show ?thesis by (rule conjI)
qed
section \<open>Running the loop a second time\<close>

lemma add_edges_sel [simp]:
  "ops_which_must_run (add_edges Y st) = ops_which_must_run st"
  "last_op_using_resource_tensor (add_edges Y st) = last_op_using_resource_tensor st"
  "merge_for_resource (add_edges Y st) = merge_for_resource st"
  "registered_ops (ps_graph (add_edges Y st)) = registered_ops (ps_graph st)"
  "operations (ps_graph (add_edges Y st)) = operations (ps_graph st)"
  "control_edges (ps_graph (add_edges Y st)) = control_edges (ps_graph st) \<union> Y"
  by (simp_all add: add_edges_def)




















section \<open>Resolving a switch once\<close>

lemma loop_preserves:
  assumes sw: "\<And>S st st'. P st \<Longrightarrow> S \<in> U \<Longrightarrow> process_switch S st = (None, st') \<Longrightarrow> P st'"
    and use: "\<And>inp st. P st \<Longrightarrow> inp \<in> set (inputs X) \<Longrightarrow> P (use_resource X inp st)"
    and lastQ: "\<And>st k l. P st \<Longrightarrow> last_op_using_resource_tensor st k = Some l \<Longrightarrow> Q l"
    and closed: "producers_closed U" and X: "X \<in> U"
  shows "P st \<Longrightarrow> \<forall>c\<in>ci. Q c \<Longrightarrow> set ins \<subseteq> set (inputs X) \<Longrightarrow>
         resource_inputs_loop X ins (ri, ci, st) = (None, ri', ci', st') \<Longrightarrow>
         P st' \<and> (\<forall>c\<in>ci'. Q c)"
proof (induction ins arbitrary: ri ci st)
  case Nil
  then show ?case by simp
next
  case (Cons inp rest)
  from Cons.prems(3) have sub: "set rest \<subseteq> set (inputs X)" and mem: "inp \<in> set (inputs X)"
    by simp_all
  show ?case
  proof (cases "dtype inp \<noteq> Resource \<or> tensor_id inp \<in> ri")
    case True
    with Cons.prems(4) have "resource_inputs_loop X rest (ri, ci, st) = (None, ri', ci', st')"
      by (simp only: loop_skip)
    from Cons.IH [OF Cons.prems(1,2) sub this] show ?thesis .
  next
    case False
    then have f: "dtype inp = Resource" "tensor_id inp \<notin> ri" by simp_all
    define rc where "rc = (if op_type (t_op inp) = ''Switch'' then process_switch (t_op inp) st
               else (None, st))"
    obtain e1 st1 where rc: "rc = (e1, st1)" by force
    note tk = loop_take [OF f rc [unfolded rc_def], of X rest ci]
    have e1: "e1 = None" using Cons.prems(4) tk by (cases e1) simp_all
    have inU: "t_op inp \<in> U"
      using closed X mem unfolding producers_closed_def by blast
    have P1: "P st1"
    proof (cases "op_type (t_op inp) = ''Switch''")
      case True
      with rc e1 have "process_switch (t_op inp) st = (None, st1)" by (simp add: rc_def)
      from sw [OF Cons.prems(1) inU this] show ?thesis .
    next
      case False
      with rc have "st1 = st" by (simp add: rc_def)
      with Cons.prems(1) show ?thesis by simp
    qed
    let ?ci1 = "(case last_op_using_resource_tensor st1 (Some (tensor_id inp)) of
                Some l \<Rightarrow> if control_flow_context l = control_flow_context X
                          then insert l ci else ci
              | None \<Rightarrow> ci)"
    have Q1: "\<forall>c\<in>?ci1. Q c"
      using Cons.prems(2) lastQ [OF P1] by (auto split: option.splits if_splits)
    have P2: "P (use_resource X inp st1)" by (rule use [OF P1 mem])
    from Cons.prems(4) tk e1 have
      "resource_inputs_loop X rest (insert (tensor_id inp) ri, ?ci1, use_resource X inp st1)
         = (None, ri', ci', st')"
      by simp
    from Cons.IH [OF P2 Q1 sub this] show ?thesis .
  qed
qed

lemma process_op_preserves:
  assumes sw: "\<And>S st st'. P st \<Longrightarrow> S \<in> U \<Longrightarrow> process_switch S st = (None, st') \<Longrightarrow> P st'"
    and use: "\<And>inp st. P st \<Longrightarrow> inp \<in> set (inputs X) \<Longrightarrow> P (use_resource X inp st)"
    and lastQ: "\<And>st k l. P st \<Longrightarrow> last_op_using_resource_tensor st k = Some l \<Longrightarrow> Q l"
    and mark: "\<And>st. P st \<Longrightarrow> P (mark_must_run X st)"
    and absorb: "\<And>st. P st \<Longrightarrow> op_type X = ''Merge'' \<Longrightarrow> P (absorb_into_merge X st)"
    and chain: "\<And>st ri. P st \<Longrightarrow> P (chain_stateful X ri st)"
    and attach: "\<And>st cs. P st \<Longrightarrow> \<forall>c\<in>cs. Q c \<Longrightarrow>
                   P (st\<lparr>ps_graph := add_control_inputs X cs (ps_graph st)\<rparr>)"
    and closed: "producers_closed U" and X: "X \<in> U"
  shows "P st \<Longrightarrow> process_op X st = (None, st') \<Longrightarrow> P st'"
proof -
  assume p: "P st" and r: "process_op X st = (None, st')"
  have pm: "P (mark_must_run X st)" by (rule mark [OF p])
  have cons: "P st'" if c: "process_consumer X (mark_must_run X st) = (None, st')"
  proof -
    obtain e ri ci st2 where l:
      "resource_inputs_loop X (inputs X) ({}, {}, mark_must_run X st) = (e, ri, ci, st2)"
      by (metis prod_cases4)
    with c have e: "e = None" by (cases e) (simp_all add: process_consumer_def)
    from loop_preserves [where P = P and Q = Q, OF sw use lastQ closed X pm _ _ l [unfolded e]]
    have 2: "P st2" "\<forall>c\<in>ci. Q c" by simp_all
    have 3: "P (chain_stateful X ri st2)" by (rule chain [OF 2(1)])
    have "st' = (chain_stateful X ri st2)\<lparr>ps_graph :=
              add_control_inputs X {c \<in> ci. control_flow_context c = control_flow_context X}
                (ps_graph (chain_stateful X ri st2))\<rparr>"
      using c l e by (simp add: process_consumer_def Let_def)
    moreover have "\<forall>c\<in>{c \<in> ci. control_flow_context c = control_flow_context X}. Q c"
      using 2(2) by simp
    ultimately show ?thesis using attach [OF 3] by simp
  qed
  show ?thesis
  proof (cases "IsInWhileLoop X")
    case True
    with r p show ?thesis by (simp add: process_op_def)
  next
    case False
    note nw = this
    show ?thesis
    proof (cases "op_type X = ''Switch''")
      case True
      show ?thesis
      proof (cases "inputs X")
        case Nil
        with r nw True show ?thesis by (simp add: process_op_def Let_def)
      next
        case (Cons inp rest)
        show ?thesis
        proof (cases "dtype inp = Resource")
          case True
          with r nw \<open>op_type X = ''Switch''\<close> Cons pm show ?thesis
            by (simp add: process_op_def Let_def)
        next
          case False
          with r nw \<open>op_type X = ''Switch''\<close> Cons
          have "process_consumer X (mark_must_run X st) = (None, st')"
            by (simp add: process_op_def Let_def)
          then show ?thesis by (rule cons)
        qed
      qed
    next
      case False
      note ns = this
      show ?thesis
      proof (cases "op_type X = ''Merge''")
        case True
        with r nw ns absorb [OF pm] show ?thesis by (simp add: process_op_def Let_def)
      next
        case False
        with r nw ns have "process_consumer X (mark_must_run X st) = (None, st')"
          by (simp add: process_op_def Let_def)
        then show ?thesis by (rule cons)
      qed
    qed
  qed
qed

lemma outputs_first:
  assumes "outputs S = out # r"
  shows "tensor_id out = (op_id S, 0)"
proof (cases "output_dtypes S")
  case Nil
  with assms show ?thesis by (simp add: outputs_def)
next
  case (Cons d ds)
  with assms have "out = Tensor S 0 d" by (simp add: outputs_def)
  then show ?thesis by (simp add: tensor_id_def)
qed

lemma outputs_producer:
  assumes "t \<in> set (outputs S)"
  shows "fst (tensor_id t) = op_id S"
  using assms by (auto simp add: outputs_def tensor_id_def)

lemma outputs_overlap:
  assumes "outputs S = out # r" and "outputs S' = out' # r'"
    and "t \<in> set (outputs S)" and "t' \<in> set (outputs S')" and "tensor_id t = tensor_id t'"
  shows "tensor_id out' = tensor_id out"
proof -
  from outputs_producer [OF assms(3)] outputs_producer [OF assms(4)] assms(5)
  have "op_id S = op_id S'" by simp
  with outputs_first [OF assms(1)] outputs_first [OF assms(2)] show ?thesis by simp
qed

lemma merges_ok_resolve:
  assumes ok: "merges_ok base U st" and S: "S \<in> U" and out: "outputs S = out # r'"
    and free: "merge_for_resource st (tensor_id out) = None"
    and res: "resolve_switch S k st = (None, st2)"
  shows "merges_ok base U st2"
proof -
  let ?m = "synthesized_merge S st"
  note r = resolve_switch_None [OF res]
  from ok obtain new where new: "operations (ps_graph st) = base @ new"
    unfolding merges_ok_def by blast
  have n1: "new_ops base st = new" by (simp add: new_ops_def new)
  have n2: "new_ops base st2 = new @ [?m]" by (simp add: new_ops_def r(2) new)
  from ok n1 have
    shape: "\<forall>m\<in>set new. op_type m = ''Merge'' \<and> length base \<le> op_id m \<and> (\<exists>S. resolves U m S) \<and>
         (\<forall>t\<in>set (inputs m). merge_for_resource st (tensor_id t) = Some m)"
    and keys: "\<forall>k m. merge_for_resource st k = Some m \<longrightarrow>
         m \<in> set new \<and> k \<in> tensor_id ` set (inputs m)"
    and dist: "distinct (map inputs new)"
    and run: "\<forall>m\<in>set new. m \<in> ops_which_must_run st \<or>
         (\<exists>N\<in>U. op_type N = ''Merge'' \<and> (op_id N, op_id m) \<in> control_edges (ps_graph st))"
    unfolding merges_ok_def by simp_all
  \<comment> \<open>no recorded key is an output of the switch being resolved\<close>
  have fresh: "merge_for_resource st k' = None" if "k' \<in> tensor_id ` set (outputs S)" for k'
  proof (rule ccontr)
    assume "merge_for_resource st k' \<noteq> None"
    then obtain m where m: "merge_for_resource st k' = Some m" by blast
    with keys have mn: "m \<in> set new" and kin: "k' \<in> tensor_id ` set (inputs m)" by blast+
    from shape mn obtain S' where S': "resolves U m S'" by blast
    then have im: "inputs m = outputs S'" and ne: "outputs S' \<noteq> []"
      by (simp_all add: resolves_def)
    from ne obtain out' r'' where o': "outputs S' = out' # r''" by (cases "outputs S'") auto
    from that obtain t where t: "t \<in> set (outputs S)" "k' = tensor_id t" by blast
    from kin im obtain t' where t': "t' \<in> set (outputs S')" "k' = tensor_id t'" by auto
    from outputs_overlap [OF out o' t(1) t'(1)] t(2) t'(2)
    have "tensor_id out' = tensor_id out" by simp
    moreover from shape mn im o' have "merge_for_resource st (tensor_id out') = Some m" by simp
    ultimately show False using free by simp
  qed
  have mf_old: "merge_for_resource st2 k' = merge_for_resource st k'"
    if "merge_for_resource st k' \<noteq> None" for k'
    using that fresh [of k'] by (auto simp add: r(5))
  have mf_new: "merge_for_resource st2 (tensor_id t) = Some ?m" if "t \<in> set (outputs S)" for t
    using that by (simp add: r(5))
  from r(1) obtain c where c: "control_flow_context S = Some c" by blast
  have res_m: "resolves U ?m S"
    using S out c by (simp add: resolves_def)
  have base_len: "length base \<le> op_id ?m" by (simp add: new)
  have 1: "\<exists>new'. operations (ps_graph st2) = base @ new'"
    by (simp add: r(2) new)
  have 2: "\<forall>m\<in>set (new @ [?m]).
         op_type m = ''Merge'' \<and> length base \<le> op_id m \<and> (\<exists>S. resolves U m S) \<and>
         (\<forall>t\<in>set (inputs m). merge_for_resource st2 (tensor_id t) = Some m)"
  proof
    fix m assume "m \<in> set (new @ [?m])"
    then consider "m \<in> set new" | "m = ?m" by auto
    then show "op_type m = ''Merge'' \<and> length base \<le> op_id m \<and> (\<exists>S. resolves U m S) \<and>
         (\<forall>t\<in>set (inputs m). merge_for_resource st2 (tensor_id t) = Some m)"
    proof cases
      case 1
      with shape have s: "op_type m = ''Merge''" "length base \<le> op_id m" "\<exists>S. resolves U m S"
        "\<forall>t\<in>set (inputs m). merge_for_resource st (tensor_id t) = Some m" by blast+
      then have "\<forall>t\<in>set (inputs m). merge_for_resource st2 (tensor_id t) = Some m"
        using mf_old by simp
      with s show ?thesis by simp
    next
      case 2
      with res_m base_len mf_new show ?thesis by auto
    qed
  qed
  have 3: "\<forall>k' m. merge_for_resource st2 k' = Some m \<longrightarrow>
         m \<in> set (new @ [?m]) \<and> k' \<in> tensor_id ` set (inputs m)"
  proof (intro allI impI)
    fix k' m assume a: "merge_for_resource st2 k' = Some m"
    show "m \<in> set (new @ [?m]) \<and> k' \<in> tensor_id ` set (inputs m)"
    proof (cases "k' \<in> tensor_id ` set (outputs S)")
      case True
      with a have "m = ?m" by (simp add: r(5))
      with True show ?thesis by simp
    next
      case False
      with a have "merge_for_resource st k' = Some m" by (simp add: r(5))
      from keys [rule_format, OF this] show ?thesis by simp
    qed
  qed
  have 4: "distinct (map inputs (new @ [?m]))"
  proof -
    have "outputs S \<notin> inputs ` set new"
    proof
      assume "outputs S \<in> inputs ` set new"
      then obtain m where m: "m \<in> set new" "inputs m = outputs S" by auto
      with shape out have "merge_for_resource st (tensor_id out) = Some m" by simp
      with free show False by simp
    qed
    with dist show ?thesis by simp
  qed
  have 5: "\<forall>m\<in>set (new @ [?m]). m \<in> ops_which_must_run st2 \<or>
         (\<exists>N\<in>U. op_type N = ''Merge'' \<and> (op_id N, op_id m) \<in> control_edges (ps_graph st2))"
  proof
    fix m assume "m \<in> set (new @ [?m])"
    then consider "m \<in> set new" | "m = ?m" by auto
    then show "m \<in> ops_which_must_run st2 \<or>
         (\<exists>N\<in>U. op_type N = ''Merge'' \<and> (op_id N, op_id m) \<in> control_edges (ps_graph st2))"
    proof cases
      case 1
      with run have "m \<in> ops_which_must_run st \<or>
         (\<exists>N\<in>U. op_type N = ''Merge'' \<and> (op_id N, op_id m) \<in> control_edges (ps_graph st))"
        by blast
      then show ?thesis unfolding r(3) r(6) by blast
    next
      case 2
      then show ?thesis by (simp add: r(3))
    qed
  qed
  show ?thesis
    unfolding merges_ok_def n2 using 1 2 3 4 5 by blast
qed

lemma merges_ok_process_switch:
  assumes "producers_closed U"
  shows "merges_ok base U st \<Longrightarrow> S \<in> U \<Longrightarrow> process_switch S st = (None, st') \<Longrightarrow>
         merges_ok base U st'"
proof (rule process_switch_preserves [where P = "merges_ok base U" and U = U])
  fix S inp r out r' st st2
  assume "merges_ok base U st" "S \<in> U" "outputs S = out # r'"
    "merge_for_resource st (tensor_id out) = None"
    "resolve_switch S (tensor_id inp) st = (None, st2)"
  then show "merges_ok base U st2" by (rule merges_ok_resolve)
qed (use assms in simp_all)

lemma merges_ok_mono:
  assumes ok: "merges_ok base U st"
    and ops: "operations (ps_graph st') = operations (ps_graph st)"
    and mf: "merge_for_resource st' = merge_for_resource st"
    and edges: "control_edges (ps_graph st) \<subseteq> control_edges (ps_graph st')"
    and must: "ops_which_must_run st \<subseteq> ops_which_must_run st'"
  shows "merges_ok base U st'"
proof -
  have n: "new_ops base st' = new_ops base st" by (simp add: new_ops_def ops)
  from ok have run: "\<forall>m\<in>set (new_ops base st).
         m \<in> ops_which_must_run st \<or>
         (\<exists>N\<in>U. op_type N = ''Merge'' \<and> (op_id N, op_id m) \<in> control_edges (ps_graph st))"
    unfolding merges_ok_def by blast
  have "\<forall>m\<in>set (new_ops base st).
         m \<in> ops_which_must_run st' \<or>
         (\<exists>N\<in>U. op_type N = ''Merge'' \<and> (op_id N, op_id m) \<in> control_edges (ps_graph st'))"
    using run edges must by blast
  with ok show ?thesis unfolding merges_ok_def n mf ops by blast
qed

lemma merges_ok_use:
  assumes "merges_ok base U st"
  shows "merges_ok base U (use_resource X inp st)"
  by (rule merges_ok_mono [OF assms]) (auto simp add: use_resource_sel)

lemma mark_must_run_sel:
  "ps_graph (mark_must_run X st) = ps_graph st"
  "merge_for_resource (mark_must_run X st) = merge_for_resource st"
  "last_op_using_resource_tensor (mark_must_run X st) = last_op_using_resource_tensor st"
  "ops_which_must_run st \<subseteq> ops_which_must_run (mark_must_run X st)"
  "ops_which_must_run (mark_must_run X st) \<subseteq> insert X (ops_which_must_run st)"
  by (auto simp add: mark_must_run_def)

lemma merges_ok_mark:
  assumes "merges_ok base U st"
  shows "merges_ok base U (mark_must_run X st)"
  by (rule merges_ok_mono [OF assms]) (simp_all add: mark_must_run_sel)

lemma merges_ok_chain:
  assumes "merges_ok base U st"
  shows "merges_ok base U (chain_stateful X ri st)"
  by (rule merges_ok_mono [OF assms]) (simp_all add: chain_stateful_sel)

lemma merges_ok_attach:
  assumes "merges_ok base U st"
  shows "merges_ok base U (st\<lparr>ps_graph := add_control_inputs X cs (ps_graph st)\<rparr>)"
  by (rule merges_ok_mono [OF assms]) (auto simp add: add_control_inputs_def)

lemma merges_ok_absorb:
  assumes ok: "merges_ok base U st" and X: "X \<in> U" "op_type X = ''Merge''"
  shows "merges_ok base U (absorb_into_merge X st)"
proof -
  let ?st' = "absorb_into_merge X st"
  have ops: "operations (ps_graph ?st') = operations (ps_graph st)"
    and mf: "merge_for_resource ?st' = merge_for_resource st"
    and e: "control_edges (ps_graph ?st') =
            (\<lambda>c. (op_id X, op_id c)) ` ops_which_must_run st \<union> control_edges (ps_graph st)"
    by (simp_all add: absorb_into_merge_def add_control_inputs_def)
  have n: "new_ops base ?st' = new_ops base st" by (simp add: new_ops_def ops)
  from ok have run: "\<forall>m\<in>set (new_ops base st).
         m \<in> ops_which_must_run st \<or>
         (\<exists>N\<in>U. op_type N = ''Merge'' \<and> (op_id N, op_id m) \<in> control_edges (ps_graph st))"
    unfolding merges_ok_def by blast
  have "\<forall>m\<in>set (new_ops base st).
         m \<in> ops_which_must_run ?st' \<or>
         (\<exists>N\<in>U. op_type N = ''Merge'' \<and> (op_id N, op_id m) \<in> control_edges (ps_graph ?st'))"
  proof
    fix m assume "m \<in> set (new_ops base st)"
    with run consider "m \<in> ops_which_must_run st"
      | "\<exists>N\<in>U. op_type N = ''Merge'' \<and> (op_id N, op_id m) \<in> control_edges (ps_graph st)"
      by blast
    then show "m \<in> ops_which_must_run ?st' \<or>
         (\<exists>N\<in>U. op_type N = ''Merge'' \<and> (op_id N, op_id m) \<in> control_edges (ps_graph ?st'))"
    proof cases
      case 1
      then have "(op_id X, op_id m) \<in> control_edges (ps_graph ?st')" unfolding e by blast
      with X show ?thesis by blast
    next
      case 2
      then show ?thesis unfolding e by blast
    qed
  qed
  with ok show ?thesis unfolding merges_ok_def n mf ops by blast
qed

lemma merges_ok_process_op:
  assumes closed: "producers_closed U" and X: "X \<in> U"
    and ok: "merges_ok base U st" and r: "process_op X st = (None, st')"
  shows "merges_ok base U st'"
proof (rule process_op_preserves [where P = "merges_ok base U" and Q = "\<lambda>_. True" and U = U
      and X = X, OF _ _ _ _ _ _ _ closed X ok r])
  show "\<And>S st st'. merges_ok base U st \<Longrightarrow> S \<in> U \<Longrightarrow> process_switch S st = (None, st') \<Longrightarrow>
          merges_ok base U st'"
    by (rule merges_ok_process_switch [OF closed])
  show "\<And>st. merges_ok base U st \<Longrightarrow> op_type X = ''Merge'' \<Longrightarrow>
          merges_ok base U (absorb_into_merge X st)"
    by (rule merges_ok_absorb [OF _ X])
qed (simp_all add: merges_ok_use merges_ok_mark merges_ok_chain merges_ok_attach)

lemma merges_ok_process_ops:
  assumes closed: "producers_closed U"
  shows "set slice \<subseteq> U \<Longrightarrow> merges_ok base U st \<Longrightarrow> process_ops slice st = (None, st') \<Longrightarrow>
         merges_ok base U st'"
proof (induction slice arbitrary: st)
  case Nil
  then show ?case by simp
next
  case (Cons X rest)
  obtain e st1 where p: "process_op X st = (e, st1)" by force
  with Cons.prems(3) have e: "e = None" by (cases e) simp_all
  from Cons.prems(1) have X: "X \<in> U" and sub: "set rest \<subseteq> U" by simp_all
  have ok1: "merges_ok base U st1"
    by (rule merges_ok_process_op [OF closed X Cons.prems(2) p [unfolded e]])
  from Cons.prems(3) p e have "process_ops rest st1 = (None, st')" by simp
  from Cons.IH [OF sub ok1 this] show ?case .
qed

lemma merges_ok_initial: "merges_ok (operations g) U (initial_pass_state g)"
  by (simp add: merges_ok_def new_ops_def initial_pass_state_def)

lemma extends_same_ops:
  assumes "operations (ps_graph st') = operations (ps_graph st)"
    and "control_edges (ps_graph st) \<subseteq> control_edges (ps_graph st')"
    and "registered_ops (ps_graph st') = registered_ops (ps_graph st)"
    and "merge_for_resource st' = merge_for_resource st"
  shows "extends st st'"
  using assms by (simp add: extends_def)

lemma extends_process_consumer: "process_consumer X st = (e, st') \<Longrightarrow> extends st st'"
proof -
  assume c: "process_consumer X st = (e, st')"
  obtain e1 ri ci st2 where l: "resource_inputs_loop X (inputs X) ({}, {}, st) = (e1, ri, ci, st2)"
    by (metis prod_cases4)
  note 1 = extends_loop [OF l]
  show ?thesis
  proof (cases e1)
    case (Some err)
    with c l have "st' = st2" by (simp add: process_consumer_def)
    with 1 show ?thesis by simp
  next
    case None
    let ?st3 = "chain_stateful X ri st2"
    have 2: "extends st2 ?st3"
      by (rule extends_same_ops) (simp_all add: chain_stateful_sel)
    from c l None have st': "st' = ?st3\<lparr>ps_graph :=
              add_control_inputs X {c \<in> ci. control_flow_context c = control_flow_context X}
                (ps_graph ?st3)\<rparr>"
      by (simp add: process_consumer_def Let_def)
    have 3: "extends ?st3 st'"
      unfolding st' by (rule extends_same_ops) (auto simp add: add_control_inputs_def)
    from extends_trans [OF extends_trans [OF 1 2] 3] show ?thesis .
  qed
qed

lemma extends_mark: "extends st (mark_must_run X st)"
  by (rule extends_same_ops) (simp_all add: mark_must_run_sel)

lemma extends_absorb: "extends st (absorb_into_merge X st)"
  by (rule extends_same_ops) (auto simp add: absorb_into_merge_def add_control_inputs_def)

lemma extends_process_op: "process_op X st = (e, st') \<Longrightarrow> extends st st'"
proof -
  assume r: "process_op X st = (e, st')"
  have c: "extends st st'" if "process_consumer X (mark_must_run X st) = (e, st')"
    using extends_trans [OF extends_mark extends_process_consumer [OF that]] .
  show ?thesis
  proof (cases "IsInWhileLoop X")
    case True
    with r show ?thesis by (simp add: process_op_def extends_refl)
  next
    case False
    note nw = this
    show ?thesis
    proof (cases "op_type X = ''Switch''")
      case True
      show ?thesis
      proof (cases "inputs X")
        case Nil
        with r nw True show ?thesis by (auto simp add: process_op_def Let_def extends_mark)
      next
        case (Cons inp rest)
        show ?thesis
        proof (cases "dtype inp = Resource")
          case True
          with r nw \<open>op_type X = ''Switch''\<close> Cons show ?thesis
            by (auto simp add: process_op_def Let_def extends_mark)
        next
          case False
          with r nw \<open>op_type X = ''Switch''\<close> Cons
          have "process_consumer X (mark_must_run X st) = (e, st')"
            by (simp add: process_op_def Let_def)
          then show ?thesis by (rule c)
        qed
      qed
    next
      case False
      note ns = this
      show ?thesis
      proof (cases "op_type X = ''Merge''")
        case True
        with r nw ns have "st' = absorb_into_merge X (mark_must_run X st)"
          by (simp add: process_op_def Let_def)
        with extends_trans [OF extends_mark extends_absorb] show ?thesis by simp
      next
        case False
        with r nw ns have "process_consumer X (mark_must_run X st) = (e, st')"
          by (simp add: process_op_def Let_def)
        then show ?thesis by (rule c)
      qed
    qed
  qed
qed

lemma extends_process_ops: "process_ops slice st = (e, st') \<Longrightarrow> extends st st'"
proof (induction slice arbitrary: st)
  case Nil
  then show ?case by (simp add: extends_refl)
next
  case (Cons X rest)
  obtain e1 st1 where p: "process_op X st = (e1, st1)" by force
  note 1 = extends_process_op [OF p]
  show ?case
  proof (cases e1)
    case (Some err)
    with Cons.prems p have "st' = st1" by simp
    with 1 show ?thesis by simp
  next
    case None
    with Cons.prems p have "process_ops rest st1 = (e, st')" by simp
    from extends_trans [OF 1 Cons.IH [OF this]] show ?thesis .
  qed
qed

lemma process_switch_again:
  "process_switch S st = (None, st1) \<Longrightarrow> extends st1 st2 \<Longrightarrow>
   process_switch S st2 = (None, st2)"
proof (induction S st arbitrary: st1 st2 rule: process_switch.induct)
  case (1 S st)
  show ?case
  proof (cases "inputs S")
    case Nil
    with "1.prems"(1) show ?thesis by (simp add: process_switch.simps [of S])
  next
    case (Cons inp r)
    define rc where "rc = (if dtype inp = Resource \<and> op_type (t_op inp) = ''Switch''
                 then process_switch (t_op inp) st else (None, st))"
    obtain e1 sta where rc: "rc = (e1, sta)" by force
    have e1: "e1 = None"
      using "1.prems"(1) Cons rc unfolding rc_def
      by (cases e1) (simp_all add: process_switch.simps [of S])
    from process_switch_resolved [OF "1.prems"(1)] obtain out r' where
      out: "outputs S = out # r'" and hit1: "merge_for_resource st1 (tensor_id out) \<noteq> None"
      by blast
    from "1.prems"(2) hit1 have hit2: "merge_for_resource st2 (tensor_id out) \<noteq> None"
      unfolding extends_def by blast
    have a1: "extends sta st1"
    proof (cases "merge_for_resource sta (tensor_id out) = None")
      case True
      with "1.prems"(1) Cons out rc e1
      have "resolve_switch S (tensor_id inp) sta = (None, st1)"
        unfolding rc_def by (simp add: process_switch.simps [of S])
      then show ?thesis by (rule extends_resolve)
    next
      case False
      with "1.prems"(1) Cons out rc e1 have "st1 = sta"
        unfolding rc_def by (simp add: process_switch.simps [of S])
      then show ?thesis by (simp add: extends_refl)
    qed
    have rec2: "(if dtype inp = Resource \<and> op_type (t_op inp) = ''Switch''
                 then process_switch (t_op inp) st2 else (None, st2)) = (None, st2)"
    proof (cases "dtype inp = Resource \<and> op_type (t_op inp) = ''Switch''")
      case True
      with rc e1 have "process_switch (t_op inp) st = (None, sta)" by (simp add: rc_def)
      from "1.IH" [OF Cons True this extends_trans [OF a1 "1.prems"(2)]]
      show ?thesis by (simp only: if_P [OF True])
    next
      case False
      show ?thesis by (rule if_not_P [OF False])
    qed
    show ?thesis
      using Cons out hit2 rec2 by (simp add: process_switch.simps [of S] del: split_paired_All)
  qed
qed

lemma outputs_t_op: "t \<in> set (outputs S) \<Longrightarrow> t_op t = S"
  by (auto simp add: outputs_def)

lemma outputs_inj:
  assumes "outputs S' = outputs S" and "outputs S \<noteq> []"
  shows "S' = S"
proof -
  from assms(2) obtain t where t: "t \<in> set (outputs S)" by (cases "outputs S") auto
  with assms(1) have "t \<in> set (outputs S')" by simp
  from outputs_t_op [OF this] outputs_t_op [OF t] show ?thesis by simp
qed

lemma new_ops_extends:
  assumes "merges_ok base U st" and "extends st st'"
  shows "set (new_ops base st) \<subseteq> set (new_ops base st')"
proof -
  from assms(1) obtain n1 where n1: "operations (ps_graph st) = base @ n1"
    unfolding merges_ok_def by blast
  from assms(2) obtain n2 where n2: "operations (ps_graph st') = operations (ps_graph st) @ n2"
    unfolding extends_def by blast
  show ?thesis by (simp add: new_ops_def n1 n2)
qed

lemma extends_edges: "extends st st' \<Longrightarrow> control_edges (ps_graph st) \<subseteq> control_edges (ps_graph st')"
  by (simp add: extends_def)

lemma filter_distinct_single:
  assumes "distinct (map f xs)" and "x \<in> set xs"
  shows "filter (\<lambda>y. f y = f x) xs = [x]"
  using assms
proof (induction xs)
  case Nil
  then show ?case by simp
next
  case (Cons a xs)
  show ?case
  proof (cases "a = x")
    case True
    from Cons.prems(1) have "f x \<notin> f ` set xs" using True by simp
    then have "\<forall>y\<in>set xs. f y \<noteq> f x" by (metis imageI)
    then have "filter (\<lambda>y. f y = f x) xs = []" by (simp add: filter_empty_conv)
    with True show ?thesis by simp
  next
    case False
    with Cons.prems have x: "x \<in> set xs" and d: "distinct (map f xs)" by simp_all
    from Cons.prems(1) x have "f a \<noteq> f x" by auto
    with Cons.IH [OF d x] show ?thesis by simp
  qed
qed

lemma resolved_merge:
  assumes ok: "merges_ok base U st1" and S: "S \<in> U"
    and uniq: "\<forall>S'\<in>U. op_id S' = op_id S \<longrightarrow> S' = S"
    and p: "process_switch S st0 = (None, st1)"
  shows "\<exists>m. m \<in> set (new_ops base st1) \<and> inputs m = outputs S \<and>
             (\<forall>t\<in>set (outputs S). merge_for_resource st1 (tensor_id t) = Some m)"
proof -
  from process_switch_resolved [OF p] obtain out r m where
    out: "outputs S = out # r" and m: "merge_for_resource st1 (tensor_id out) = Some m"
    by blast
  from ok m have mn: "m \<in> set (new_ops base st1)"
    and kin: "tensor_id out \<in> tensor_id ` set (inputs m)"
    unfolding merges_ok_def by blast+
  from ok mn obtain S' where S': "resolves U m S'"
    and all: "\<forall>t\<in>set (inputs m). merge_for_resource st1 (tensor_id t) = Some m"
    unfolding merges_ok_def by blast
  from S' have im: "inputs m = outputs S'" and S'U: "S' \<in> U" by (simp_all add: resolves_def)
  from kin im obtain t' where t': "t' \<in> set (outputs S')" "tensor_id out = tensor_id t'" by auto
  from outputs_producer [OF t'(1)] t'(2) outputs_first [OF out] have "op_id S' = op_id S"
    by (metis fst_conv)
  with uniq S'U have "S' = S" by blast
  with im all mn show ?thesis by auto
qed

lemma loop_switch_edge:
  assumes closed: "producers_closed U" and X: "X \<in> U"
    and uniq: "\<forall>S'\<in>U. op_id S' = op_id S \<longrightarrow> S' = S"
    and S: "op_type S = ''Switch''"
  shows "merges_ok base U st \<Longrightarrow> set ins \<subseteq> set (inputs X) \<Longrightarrow>
         resource_inputs_loop X ins (ri, ci, st) = (None, ri', ci', st') \<Longrightarrow>
         inp \<in> set ins \<Longrightarrow> dtype inp = Resource \<Longrightarrow> inp \<in> set (outputs S) \<Longrightarrow>
         tensor_id inp \<notin> ri \<Longrightarrow>
         \<exists>m sa sb. m \<in> set (new_ops base st') \<and> inputs m = outputs S \<and>
            (op_id m, op_id X) \<in> control_edges (ps_graph st') \<and>
            process_switch S sa = (None, sb) \<and> extends sb st'"
proof (induction ins arbitrary: ri ci st)
  case Nil
  then show ?case by simp
next
  case (Cons h rest)
  from Cons.prems(2) have sub: "set rest \<subseteq> set (inputs X)" and hmem: "h \<in> set (inputs X)"
    by simp_all
  show ?case
  proof (cases "dtype h \<noteq> Resource \<or> tensor_id h \<in> ri")
    case True
    with Cons.prems(5,7) have "inp \<noteq> h" by auto
    with Cons.prems(4) have mem: "inp \<in> set rest" by simp
    from True Cons.prems(3) have "resource_inputs_loop X rest (ri, ci, st) = (None, ri', ci', st')"
      by (simp only: loop_skip)
    from Cons.IH [OF Cons.prems(1) sub this mem Cons.prems(5,6,7)] show ?thesis .
  next
    case False
    then have f: "dtype h = Resource" "tensor_id h \<notin> ri" by simp_all
    define rc where "rc = (if op_type (t_op h) = ''Switch'' then process_switch (t_op h) st
               else (None, st))"
    obtain e1 st1 where rc: "rc = (e1, st1)" by force
    note tk = loop_take [OF f rc [unfolded rc_def], of X rest ci]
    have e1: "e1 = None" using Cons.prems(3) tk by (cases e1) simp_all
    have hU: "t_op h \<in> U"
      using closed X hmem unfolding producers_closed_def by blast
    have ok1: "merges_ok base U st1"
    proof (cases "op_type (t_op h) = ''Switch''")
      case True
      with rc e1 have "process_switch (t_op h) st = (None, st1)" by (simp add: rc_def)
      from merges_ok_process_switch [OF closed Cons.prems(1) hU this] show ?thesis .
    next
      case False
      with rc have "st1 = st" by (simp add: rc_def)
      with Cons.prems(1) show ?thesis by simp
    qed
    let ?st2 = "use_resource X h st1"
    let ?ci1 = "(case last_op_using_resource_tensor st1 (Some (tensor_id h)) of
                Some l \<Rightarrow> if control_flow_context l = control_flow_context X
                          then insert l ci else ci
              | None \<Rightarrow> ci)"
    have ok2: "merges_ok base U ?st2" by (rule merges_ok_use [OF ok1])
    from Cons.prems(3) tk e1 have rest:
      "resource_inputs_loop X rest (insert (tensor_id h) ri, ?ci1, ?st2) = (None, ri', ci', st')"
      by simp
    show ?thesis
    proof (cases "tensor_id h = tensor_id inp")
      case True
      from outputs_producer [OF Cons.prems(6)] True
      have "op_id (t_op h) = op_id S" by (simp add: tensor_id_def)
      with uniq hU have hS: "t_op h = S" by blast
      with S rc e1 have p: "process_switch S st = (None, st1)" by (simp add: rc_def)
      from hS hU have SU: "S \<in> U" by simp
      from resolved_merge [OF ok1 SU uniq p] obtain m where
        m: "m \<in> set (new_ops base st1)" "inputs m = outputs S"
          "\<forall>t\<in>set (outputs S). merge_for_resource st1 (tensor_id t) = Some m"
        by blast
      from m(3) Cons.prems(6) True have "merge_for_resource st1 (tensor_id h) = Some m" by simp
      then have e2: "(op_id m, op_id X) \<in> control_edges (ps_graph ?st2)"
        by (simp add: use_resource_sel)
      have x12: "extends st1 ?st2" by (rule extends_use_resource)
      have x2: "extends ?st2 st'" by (rule extends_loop [OF rest])
      have x1: "extends st1 st'" by (rule extends_trans [OF x12 x2])
      from new_ops_extends [OF ok1 x1] m(1) have "m \<in> set (new_ops base st')" by blast
      moreover from extends_edges [OF x2] e2
      have "(op_id m, op_id X) \<in> control_edges (ps_graph st')" by blast
      ultimately show ?thesis using m(2) p x1 by blast
    next
      case False
      with Cons.prems(4) have mem: "inp \<in> set rest" by auto
      from False Cons.prems(7) have nin: "tensor_id inp \<notin> insert (tensor_id h) ri" by simp
      from Cons.IH [OF ok2 sub rest mem Cons.prems(5,6) nin] show ?thesis .
    qed
  qed
qed

lemma process_ops_append:
  "process_ops (xs @ ys) st =
     (case process_ops xs st of
        (Some e, st1) \<Rightarrow> (Some e, st1)
      | (None, st1) \<Rightarrow> process_ops ys st1)"
proof (induction xs arbitrary: st)
  case Nil
  then show ?case by simp
next
  case (Cons X xs)
  obtain e st1 where p: "process_op X st = (e, st1)" by force
  show ?case using Cons.IH [of st1] p by (cases e) simp_all
qed

lemma process_ops_split:
  assumes "process_ops (pre @ X # post) st = (None, st')"
  obtains sa sb where "process_ops pre st = (None, sa)" and "process_op X sa = (None, sb)"
    and "process_ops post sb = (None, st')"
proof -
  obtain e1 sa where a: "process_ops pre st = (e1, sa)" by force
  with assms have e1: "e1 = None" by (cases e1) (simp_all add: process_ops_append)
  obtain e2 sb where b: "process_op X sa = (e2, sb)" by force
  with assms a e1 have e2: "e2 = None" by (cases e2) (simp_all add: process_ops_append)
  from assms a e1 b e2 have c: "process_ops post sb = (None, st')"
    by (simp add: process_ops_append)
  show thesis by (rule that [OF a [unfolded e1] b [unfolded e2] c])
qed

lemma consumer_switch_edge:
  assumes closed: "producers_closed U" and W: "W \<in> U"
    and uniq: "\<forall>S'\<in>U. op_id S' = op_id S \<longrightarrow> S' = S"
    and S: "op_type S = ''Switch''"
    and kind: "\<not> IsInWhileLoop W" "op_type W \<noteq> ''Merge''" "op_type W \<noteq> ''Switch''"
    and ok: "merges_ok base U st" and r: "process_op W st = (None, st')"
    and inp: "inp \<in> set (inputs W)" "dtype inp = Resource" "inp \<in> set (outputs S)"
  shows "\<exists>m sa sb. m \<in> set (new_ops base st') \<and> inputs m = outputs S \<and>
            (op_id m, op_id W) \<in> control_edges (ps_graph st') \<and>
            process_switch S sa = (None, sb) \<and> extends sb st'"
proof -
  let ?s0 = "mark_must_run W st"
  from r kind have c: "process_consumer W ?s0 = (None, st')"
    by (simp add: process_op_consumer)
  obtain e ri ci st2 where l: "resource_inputs_loop W (inputs W) ({}, {}, ?s0) = (e, ri, ci, st2)"
    by (metis prod_cases4)
  with c have e: "e = None" by (cases e) (simp_all add: process_consumer_def)
  have ok0: "merges_ok base U ?s0" by (rule merges_ok_mark [OF ok])
  from loop_switch_edge [OF closed W uniq S ok0 subset_refl l [unfolded e] inp]
  obtain m sa sb where m: "m \<in> set (new_ops base st2)" "inputs m = outputs S"
    "(op_id m, op_id W) \<in> control_edges (ps_graph st2)"
    "process_switch S sa = (None, sb)" "extends sb st2"
    by auto
  have ok2: "merges_ok base U st2"
    using loop_preserves [where P = "merges_ok base U" and Q = "\<lambda>_. True" and U = U,
        OF merges_ok_process_switch [OF closed] merges_ok_use _ closed W ok0 _ subset_refl
          l [unfolded e]]
    by simp
  let ?st3 = "chain_stateful W ri st2"
  have x23: "extends st2 ?st3"
    by (rule extends_same_ops) (simp_all add: chain_stateful_sel)
  from c l e have st': "st' = ?st3\<lparr>ps_graph :=
              add_control_inputs W {c \<in> ci. control_flow_context c = control_flow_context W}
                (ps_graph ?st3)\<rparr>"
    by (simp add: process_consumer_def Let_def)
  have x3: "extends ?st3 st'"
    unfolding st' by (rule extends_same_ops) (auto simp add: add_control_inputs_def)
  have x2: "extends st2 st'" by (rule extends_trans [OF x23 x3])
  from new_ops_extends [OF ok2 x2] m(1) have 1: "m \<in> set (new_ops base st')" by blast
  from extends_edges [OF x2] m(3) have 2: "(op_id m, op_id W) \<in> control_edges (ps_graph st')"
    by blast
  from 1 2 m(2,4) extends_trans [OF m(5) x2] show ?thesis by blast
qed

lemma both_run:
  "fst (process_ops both_slice (initial_pass_state g_both)) = None"
  "control_edges (ps_graph (snd (process_ops both_slice (initial_pass_state g_both))))
     = {(5, 3), (5, 4)}"
  by (auto simp add: both_slice_def step_defs table_defs engine_defs g0_def g_both_def cond_defs
      process_switch_unchained switch_defs)

lemma producers_closed_UNIV: "producers_closed UNIV"
  by (simp add: producers_closed_def)

lemma fresh_marked_switch:
  assumes "fresh_marked ops0 st" and "process_switch S st = (None, st')"
  shows "fresh_marked ops0 st'"
proof (rule process_switch_preserves [where P = "fresh_marked ops0" and U = UNIV,
      OF _ producers_closed_UNIV assms(1) UNIV_I assms(2)])
  fix S inp r out r' st st2
  assume p: "fresh_marked ops0 st" and r: "resolve_switch S (tensor_id inp) st = (None, st2)"
  from p obtain new where n: "operations (ps_graph st) = ops0 @ new"
    "set new \<subseteq> ops_which_must_run st"
    unfolding fresh_marked_def by blast
  have "operations (ps_graph st2) = ops0 @ (new @ [synthesized_merge S st])"
    using resolve_switch_None(2) [OF r] n(1) by simp
  moreover have "set (new @ [synthesized_merge S st]) \<subseteq> ops_which_must_run st2"
    using resolve_switch_None(3) [OF r] n(2) by auto
  ultimately show "fresh_marked ops0 st2" unfolding fresh_marked_def by blast
qed

lemma fresh_marked_mono:
  assumes "fresh_marked ops0 st" and "operations (ps_graph st') = operations (ps_graph st)"
    and "ops_which_must_run st \<subseteq> ops_which_must_run st'"
  shows "fresh_marked ops0 st'"
  using assms unfolding fresh_marked_def by auto

lemma fresh_marked_op:
  assumes r: "process_op X st = (None, st')"
  shows "fresh_marked (operations (ps_graph st)) st'"
proof -
  let ?P = "fresh_marked (operations (ps_graph st))"
  have p0: "?P st" by (simp add: fresh_marked_def)
  have pm: "?P (mark_must_run X st)"
    by (rule fresh_marked_mono [OF p0]) (simp_all add: mark_must_run_sel)
  have cons: "?P st'" if c: "process_consumer X (mark_must_run X st) = (None, st')"
  proof -
    obtain e ri ci st2 where l:
      "resource_inputs_loop X (inputs X) ({}, {}, mark_must_run X st) = (e, ri, ci, st2)"
      by (metis prod_cases4)
    with c have e: "e = None" by (cases e) (simp_all add: process_consumer_def)
    have "?P st2 \<and> (\<forall>c\<in>ci. True)"
    proof (rule loop_preserves [where P = ?P and Q = "\<lambda>_. True" and U = UNIV and X = X,
          OF _ _ _ producers_closed_UNIV UNIV_I pm _ subset_refl l [unfolded e]])
      show "\<And>S st st'. ?P st \<Longrightarrow> S \<in> UNIV \<Longrightarrow> process_switch S st = (None, st') \<Longrightarrow> ?P st'"
        by (rule fresh_marked_switch)
      show "\<And>inp st. ?P st \<Longrightarrow> inp \<in> set (inputs X) \<Longrightarrow> ?P (use_resource X inp st)"
      proof -
        fix inp s assume a: "?P s"
        show "?P (use_resource X inp s)"
          using a unfolding fresh_marked_def by (simp add: use_resource_sel)
      qed
    qed simp_all
    then have 2: "?P st2" by simp
    have 3: "?P (chain_stateful X ri st2)"
      by (rule fresh_marked_mono [OF 2]) (simp_all add: chain_stateful_sel)
    from c l e have "st' = (chain_stateful X ri st2)\<lparr>ps_graph :=
        add_control_inputs X {c \<in> ci. control_flow_context c = control_flow_context X}
          (ps_graph (chain_stateful X ri st2))\<rparr>"
      by (simp add: process_consumer_def Let_def)
    then show ?thesis
      using 3 by (auto simp add: fresh_marked_def add_control_inputs_def)
  qed
  show ?thesis
  proof (cases "IsInWhileLoop X")
    case True
    with r p0 show ?thesis by (simp add: process_op_def)
  next
    case False
    note nw = this
    show ?thesis
    proof (cases "op_type X = ''Merge''")
      case True
      with r nw have "st' = absorb_into_merge X (mark_must_run X st)"
        by (simp add: process_op_def Let_def)
      then show ?thesis
        by (simp add: fresh_marked_def absorb_into_merge_def add_control_inputs_def
            mark_must_run_sel)
    next
      case False
      show ?thesis
      proof (cases "process_consumer X (mark_must_run X st) = (None, st')")
        case True
        then show ?thesis by (rule cons)
      next
        case nc: False
        with r nw False have "st' = mark_must_run X st"
          by (auto simp add: process_op_def Let_def split: if_splits list.splits)
        with pm show ?thesis by simp
      qed
    qed
  qed
qed

lemma marked_when_created:
  "process_ops slice st = (None, st') \<Longrightarrow>
   \<exists>new. operations (ps_graph st') = operations (ps_graph st) @ new \<and>
     (\<forall>m\<in>set new. \<exists>pre post. slice = pre @ post \<and>
        m \<in> ops_which_must_run (snd (process_ops pre st)))"
proof (induction slice arbitrary: st)
  case Nil
  then show ?case by simp
next
  case (Cons X rest)
  obtain e st1 where p: "process_op X st = (e, st1)" by force
  with Cons.prems have e: "e = None" by (cases e) simp_all
  from Cons.prems p e have q: "process_ops rest st1 = (None, st')" by simp
  from fresh_marked_op [OF p [unfolded e]] obtain new1 where
    n1: "operations (ps_graph st1) = operations (ps_graph st) @ new1"
    "set new1 \<subseteq> ops_which_must_run st1"
    unfolding fresh_marked_def by blast
  from Cons.IH [OF q] obtain new2 where
    n2: "operations (ps_graph st') = operations (ps_graph st1) @ new2"
    "\<forall>m\<in>set new2. \<exists>pre post. rest = pre @ post \<and>
        m \<in> ops_which_must_run (snd (process_ops pre st1))"
    by blast
  have a: "operations (ps_graph st') = operations (ps_graph st) @ (new1 @ new2)"
    using n1(1) n2(1) by simp
  have b: "\<forall>m\<in>set (new1 @ new2). \<exists>pre post. X # rest = pre @ post \<and>
        m \<in> ops_which_must_run (snd (process_ops pre st))"
  proof
    fix m assume "m \<in> set (new1 @ new2)"
    then consider "m \<in> set new1" | "m \<in> set new2" by auto
    then show "\<exists>pre post. X # rest = pre @ post \<and>
        m \<in> ops_which_must_run (snd (process_ops pre st))"
    proof cases
      case 1
      with n1(2) have "m \<in> ops_which_must_run (snd (process_ops [X] st))"
        using p e by auto
      moreover have "X # rest = [X] @ rest" by simp
      ultimately show ?thesis by blast
    next
      case 2
      with n2(2) obtain pre post where "rest = pre @ post"
        "m \<in> ops_which_must_run (snd (process_ops pre st1))" by blast
      then have "X # rest = (X # pre) @ post"
        "m \<in> ops_which_must_run (snd (process_ops (X # pre) st))"
        using p e by simp_all
      then show ?thesis by blast
    qed
  qed
  from a b show ?case by blast
qed

text \<open>
  Claim C2. Take a graph whose tensors are produced by operations of the graph, a slice
  of it that the loop processes without error from a fresh working state, a Switch \<open>S\<close>
  that is the only operation of the graph with its id, and an operation \<open>W\<close> of the
  slice, outside loops and neither a Switch nor a Merge, that consumes a resource output
  of \<open>S\<close>. Then exactly one of the operations the pass appended is a merge over the
  outputs of \<open>S\<close>; it is a Merge placed in the outer context of the context of \<open>S\<close>;
  it has a control input on \<open>W\<close>, and so on every such consumer, whichever output and
  branch it uses; it is in the must-run set once the pass has processed some prefix
  of the slice, and at the end of the pass unless a Merge of the graph has taken it over
  with a control input on it; and resolving \<open>S\<close> once more in
  the final state returns that state unchanged.
\<close>

theorem switch_resolved_once:
  assumes closed: "producers_closed (set (operations g))"
    and slice: "set slice \<subseteq> set (operations g)"
    and uniq: "\<forall>S'\<in>set (operations g). op_id S' = op_id S \<longrightarrow> S' = S"
    and run: "process_ops slice (initial_pass_state g) = (None, st')"
    and S: "op_type S = ''Switch''"
    and W: "W \<in> set slice" "\<not> IsInWhileLoop W" "op_type W \<noteq> ''Merge''" "op_type W \<noteq> ''Switch''"
    and inp: "inp \<in> set (inputs W)" "dtype inp = Resource" "inp \<in> set (outputs S)"
  shows "\<exists>m c. filter (\<lambda>m. inputs m = outputs S) (new_ops (operations g) st') = [m] \<and>
           op_type m = ''Merge'' \<and>
           control_flow_context S = Some c \<and> control_flow_context m = outer_context c \<and>
           (op_id m, op_id W) \<in> control_edges (ps_graph st') \<and>
           (\<exists>pre post. slice = pre @ post \<and>
              m \<in> ops_which_must_run (snd (process_ops pre (initial_pass_state g)))) \<and>
           (m \<in> ops_which_must_run st' \<or>
            (\<exists>N\<in>set (operations g). op_type N = ''Merge'' \<and>
               (op_id N, op_id m) \<in> control_edges (ps_graph st'))) \<and>
           process_switch S st' = (None, st')"
proof -
  let ?U = "set (operations g)"
  let ?base = "operations g"
  from W(1) obtain pre post where sp: "slice = pre @ W # post" by (auto dest: split_list)
  from run sp obtain sa sb where
    a: "process_ops pre (initial_pass_state g) = (None, sa)"
    and b: "process_op W sa = (None, sb)" and c: "process_ops post sb = (None, st')"
    by (auto elim: process_ops_split)
  from slice sp have preU: "set pre \<subseteq> ?U" and WU: "W \<in> ?U" and postU: "set post \<subseteq> ?U"
    by simp_all
  have oka: "merges_ok ?base ?U sa"
    by (rule merges_ok_process_ops [OF closed preU merges_ok_initial a])
  have okb: "merges_ok ?base ?U sb"
    by (rule merges_ok_process_op [OF closed WU oka b])
  have ok': "merges_ok ?base ?U st'"
    by (rule merges_ok_process_ops [OF closed postU okb c])
  from consumer_switch_edge [OF closed WU uniq S W(2,3,4) oka b inp]
  obtain m s1 s2 where m: "m \<in> set (new_ops ?base sb)" "inputs m = outputs S"
    "(op_id m, op_id W) \<in> control_edges (ps_graph sb)"
    "process_switch S s1 = (None, s2)" "extends s2 sb"
    by blast
  note xb = extends_process_ops [OF c]
  from new_ops_extends [OF okb xb] m(1) have mn: "m \<in> set (new_ops ?base st')" by blast
  from extends_edges [OF xb] m(3) have me: "(op_id m, op_id W) \<in> control_edges (ps_graph st')"
    by blast
  from ok' have dist: "distinct (map inputs (new_ops ?base st'))"
    unfolding merges_ok_def by blast
  from filter_distinct_single [OF dist mn] m(2)
  have one: "filter (\<lambda>m. inputs m = outputs S) (new_ops ?base st') = [m]" by simp
  from ok' mn obtain S' where ty: "op_type m = ''Merge''" and S': "resolves ?U m S'"
    unfolding merges_ok_def by blast
  from S' m(2) have "outputs S' = outputs S" "outputs S \<noteq> []" by (simp_all add: resolves_def)
  then have "S' = S" by (rule outputs_inj)
  with S' obtain c where ctx: "control_flow_context S = Some c"
    "control_flow_context m = outer_context c"
    by (auto simp add: resolves_def)
  from ok' mn have must: "m \<in> ops_which_must_run st' \<or>
            (\<exists>N\<in>?U. op_type N = ''Merge'' \<and> (op_id N, op_id m) \<in> control_edges (ps_graph st'))"
    unfolding merges_ok_def by blast
  have again: "process_switch S st' = (None, st')"
    by (rule process_switch_again [OF m(4) extends_trans [OF m(5) xb]])
  from marked_when_created [OF run] obtain new where
    new: "operations (ps_graph st') = operations g @ new"
    "\<forall>m\<in>set new. \<exists>pre post. slice = pre @ post \<and>
        m \<in> ops_which_must_run (snd (process_ops pre (initial_pass_state g)))"
    by (auto simp add: initial_pass_state_def)
  from new(1) have "new_ops ?base st' = new" by (simp add: new_ops_def)
  with mn new(2) have marked: "\<exists>pre post. slice = pre @ post \<and>
        m \<in> ops_which_must_run (snd (process_ops pre (initial_pass_state g)))"
    by blast
  from one ty ctx me marked must again show ?thesis by blast
qed

theorem switch_resolved_once_witness:
  "\<exists>m. filter (\<lambda>m. inputs m = outputs switch_v)
         (new_ops (operations g_both)
            (snd (process_ops both_slice (initial_pass_state g_both)))) = [m] \<and>
       control_flow_context m = None \<and>
       m \<in> ops_which_must_run (snd (process_ops both_slice (initial_pass_state g_both))) \<and>
       {(op_id m, 3), (op_id m, 4)} \<subseteq>
         control_edges (ps_graph (snd (process_ops both_slice (initial_pass_state g_both))))"
proof -
  let ?st = "snd (process_ops both_slice (initial_pass_state g_both))"
  have closed: "producers_closed (set (operations g_both))"
    by (simp add: producers_closed_def g_both_def engine_defs cond_defs)
  have slice: "set both_slice \<subseteq> set (operations g_both)"
    by (simp add: both_slice_def g_both_def)
  have uniq: "\<forall>S'\<in>set (operations g_both). op_id S' = op_id switch_v \<longrightarrow> S' = switch_v"
    by (simp add: g_both_def engine_defs cond_defs)
  have run: "process_ops both_slice (initial_pass_state g_both) = (None, ?st)"
    using both_run(1) by (metis prod.collapse)
  have S: "op_type switch_v = ''Switch''" by (simp add: switch_v_def)
  have Wt: "assign_t \<in> set both_slice" "\<not> IsInWhileLoop assign_t"
    "op_type assign_t \<noteq> ''Merge''" "op_type assign_t \<noteq> ''Switch''"
    "Tensor switch_v 1 Resource \<in> set (inputs assign_t)"
    by (simp_all add: both_slice_def assign_t_def IsInWhileLoop_def ctx_true_def)
  have Wf: "assign_f \<in> set both_slice" "\<not> IsInWhileLoop assign_f"
    "op_type assign_f \<noteq> ''Merge''" "op_type assign_f \<noteq> ''Switch''"
    "Tensor switch_v 0 Resource \<in> set (inputs assign_f)"
    by (simp_all add: both_slice_def assign_f_def IsInWhileLoop_def ctx_false_def)
  have o: "Tensor switch_v 1 Resource \<in> set (outputs switch_v)"
    "Tensor switch_v 0 Resource \<in> set (outputs switch_v)"
    by (simp_all add: outputs_switch_v)
  have d: "dtype (Tensor switch_v 1 Resource) = Resource"
    "dtype (Tensor switch_v 0 Resource) = Resource" by simp_all
  from switch_resolved_once [OF closed slice uniq run S Wt(1,2,3,4,5) d(1) o(1)]
  obtain m c where m: "filter (\<lambda>m. inputs m = outputs switch_v)
         (new_ops (operations g_both) ?st) = [m]"
    "control_flow_context switch_v = Some c" "control_flow_context m = outer_context c"
    "(op_id m, op_id assign_t) \<in> control_edges (ps_graph ?st)"
    "m \<in> ops_which_must_run ?st \<or>
       (\<exists>N\<in>set (operations g_both). op_type N = ''Merge'' \<and>
          (op_id N, op_id m) \<in> control_edges (ps_graph ?st))"
    by blast
  have nm: "\<forall>N\<in>set (operations g_both). op_type N \<noteq> ''Merge''"
    by (simp add: g_both_def engine_defs cond_defs)
  from m(5) nm have mr: "m \<in> ops_which_must_run ?st" by blast
  from switch_resolved_once [OF closed slice uniq run S Wf(1,2,3,4,5) d(2) o(2)]
  obtain m' where m': "filter (\<lambda>m. inputs m = outputs switch_v)
         (new_ops (operations g_both) ?st) = [m']"
    "(op_id m', op_id assign_f) \<in> control_edges (ps_graph ?st)"
    by blast
  from m(1) m'(1) have "m' = m" by simp
  moreover from m(2,3) have "control_flow_context m = None"
    by (auto simp add: switch_v_def ctx_true_def)
  ultimately show ?thesis
    using m(1,4) m'(2) mr by (auto simp add: assign_t_def assign_f_def)
qed

section \<open>Ordering two consumers of a resource\<close>

lemma process_switch_preserves_sw:
  assumes step: "\<And>S inp r st st2. P st \<Longrightarrow> S \<in> U \<Longrightarrow> op_type S = ''Switch'' \<Longrightarrow>
      inputs S = inp # r \<Longrightarrow> resolve_switch S (tensor_id inp) st = (None, st2) \<Longrightarrow> P st2"
    and closed: "producers_closed U"
  shows "P st \<Longrightarrow> S \<in> U \<Longrightarrow> op_type S = ''Switch'' \<Longrightarrow>
         process_switch S st = (None, st') \<Longrightarrow> P st'"
proof (induction S st arbitrary: st' rule: process_switch.induct)
  case (1 S st)
  show ?case
  proof (cases "inputs S")
    case Nil
    with "1.prems"(4) show ?thesis by (simp add: process_switch.simps [of S])
  next
    case (Cons inp r)
    define rc where "rc = (if dtype inp = Resource \<and> op_type (t_op inp) = ''Switch''
                 then process_switch (t_op inp) st else (None, st))"
    obtain e1 st1 where rc: "rc = (e1, st1)" by force
    have e1: "e1 = None"
      using "1.prems"(4) Cons rc unfolding rc_def
      by (cases e1) (simp_all add: process_switch.simps [of S])
    have inU: "t_op inp \<in> U"
      using closed "1.prems"(2) Cons unfolding producers_closed_def by auto
    have P1: "P st1"
    proof (cases "dtype inp = Resource \<and> op_type (t_op inp) = ''Switch''")
      case True
      with rc e1 have ps: "process_switch (t_op inp) st = (None, st1)" by (simp add: rc_def)
      from True have ty: "op_type (t_op inp) = ''Switch''" by simp
      from "1.IH" [OF Cons True "1.prems"(1) inU ty ps] show ?thesis .
    next
      case False
      with rc have "st1 = st" by (simp add: rc_def)
      with "1.prems"(1) show ?thesis by simp
    qed
    show ?thesis
    proof (cases "outputs S")
      case Nil
      with "1.prems"(4) Cons rc e1 show ?thesis
        unfolding rc_def by (simp add: process_switch.simps [of S])
    next
      case (Cons out r')
      show ?thesis
      proof (cases "merge_for_resource st1 (tensor_id out) = None")
        case True
        with "1.prems"(4) \<open>inputs S = inp # r\<close> Cons rc e1
        have "resolve_switch S (tensor_id inp) st1 = (None, st')"
          unfolding rc_def by (simp add: process_switch.simps [of S])
        from step [OF P1 "1.prems"(2,3) \<open>inputs S = inp # r\<close> this] show ?thesis .
      next
        case False
        with "1.prems"(4) \<open>inputs S = inp # r\<close> Cons rc e1 have "st' = st1"
          unfolding rc_def by (simp add: process_switch.simps [of S])
        with P1 show ?thesis by simp
      qed
    qed
  qed
qed

lemma loop_preserves_sw:
  assumes sw: "\<And>S st st'. P st \<Longrightarrow> S \<in> U \<Longrightarrow> op_type S = ''Switch'' \<Longrightarrow>
                 process_switch S st = (None, st') \<Longrightarrow> P st'"
    and use: "\<And>inp st. P st \<Longrightarrow> inp \<in> set (inputs X) \<Longrightarrow> P (use_resource X inp st)"
    and lastQ: "\<And>st k l. P st \<Longrightarrow> last_op_using_resource_tensor st k = Some l \<Longrightarrow> Q l"
    and closed: "producers_closed U" and X: "X \<in> U"
  shows "P st \<Longrightarrow> \<forall>c\<in>ci. Q c \<Longrightarrow> set ins \<subseteq> set (inputs X) \<Longrightarrow>
         resource_inputs_loop X ins (ri, ci, st) = (None, ri', ci', st') \<Longrightarrow>
         P st' \<and> (\<forall>c\<in>ci'. Q c)"
proof (induction ins arbitrary: ri ci st)
  case Nil
  then show ?case by simp
next
  case (Cons inp rest)
  from Cons.prems(3) have sub: "set rest \<subseteq> set (inputs X)" and mem: "inp \<in> set (inputs X)"
    by simp_all
  show ?case
  proof (cases "dtype inp \<noteq> Resource \<or> tensor_id inp \<in> ri")
    case True
    with Cons.prems(4) have "resource_inputs_loop X rest (ri, ci, st) = (None, ri', ci', st')"
      by (simp only: loop_skip)
    from Cons.IH [OF Cons.prems(1,2) sub this] show ?thesis .
  next
    case False
    then have f: "dtype inp = Resource" "tensor_id inp \<notin> ri" by simp_all
    define rc where "rc = (if op_type (t_op inp) = ''Switch'' then process_switch (t_op inp) st
               else (None, st))"
    obtain e1 st1 where rc: "rc = (e1, st1)" by force
    note tk = loop_take [OF f rc [unfolded rc_def], of X rest ci]
    have e1: "e1 = None" using Cons.prems(4) tk by (cases e1) simp_all
    have inU: "t_op inp \<in> U"
      using closed X mem unfolding producers_closed_def by blast
    have P1: "P st1"
    proof (cases "op_type (t_op inp) = ''Switch''")
      case True
      with rc e1 have "process_switch (t_op inp) st = (None, st1)" by (simp add: rc_def)
      from sw [OF Cons.prems(1) inU True this] show ?thesis .
    next
      case False
      with rc have "st1 = st" by (simp add: rc_def)
      with Cons.prems(1) show ?thesis by simp
    qed
    let ?ci1 = "(case last_op_using_resource_tensor st1 (Some (tensor_id inp)) of
                Some l \<Rightarrow> if control_flow_context l = control_flow_context X
                          then insert l ci else ci
              | None \<Rightarrow> ci)"
    have Q1: "\<forall>c\<in>?ci1. Q c"
      using Cons.prems(2) lastQ [OF P1] by (auto split: option.splits if_splits)
    have P2: "P (use_resource X inp st1)" by (rule use [OF P1 mem])
    from Cons.prems(4) tk e1 have
      "resource_inputs_loop X rest (insert (tensor_id inp) ri, ?ci1, use_resource X inp st1)
         = (None, ri', ci', st')"
      by simp
    from Cons.IH [OF P2 Q1 sub this] show ?thesis .
  qed
qed

lemma process_op_preserves_sw:
  assumes sw: "\<And>S st st'. P st \<Longrightarrow> S \<in> U \<Longrightarrow> op_type S = ''Switch'' \<Longrightarrow>
                 process_switch S st = (None, st') \<Longrightarrow> P st'"
    and use: "\<And>inp st. P st \<Longrightarrow> inp \<in> set (inputs X) \<Longrightarrow> P (use_resource X inp st)"
    and lastQ: "\<And>st k l. P st \<Longrightarrow> last_op_using_resource_tensor st k = Some l \<Longrightarrow> Q l"
    and mark: "\<And>st. P st \<Longrightarrow> P (mark_must_run X st)"
    and absorb: "\<And>st. P st \<Longrightarrow> op_type X = ''Merge'' \<Longrightarrow> P (absorb_into_merge X st)"
    and chain: "\<And>st ri. P st \<Longrightarrow> P (chain_stateful X ri st)"
    and attach: "\<And>st cs. P st \<Longrightarrow> \<forall>c\<in>cs. Q c \<Longrightarrow>
                   P (st\<lparr>ps_graph := add_control_inputs X cs (ps_graph st)\<rparr>)"
    and closed: "producers_closed U" and X: "X \<in> U"
  shows "P st \<Longrightarrow> process_op X st = (None, st') \<Longrightarrow> P st'"
proof -
  assume p: "P st" and r: "process_op X st = (None, st')"
  have pm: "P (mark_must_run X st)" by (rule mark [OF p])
  have cons: "P st'" if c: "process_consumer X (mark_must_run X st) = (None, st')"
  proof -
    obtain e ri ci st2 where l:
      "resource_inputs_loop X (inputs X) ({}, {}, mark_must_run X st) = (e, ri, ci, st2)"
      by (metis prod_cases4)
    with c have e: "e = None" by (cases e) (simp_all add: process_consumer_def)
    from loop_preserves_sw [where P = P and Q = Q, OF sw use lastQ closed X pm _ _ l [unfolded e]]
    have 2: "P st2" "\<forall>c\<in>ci. Q c" by simp_all
    have 3: "P (chain_stateful X ri st2)" by (rule chain [OF 2(1)])
    have "st' = (chain_stateful X ri st2)\<lparr>ps_graph :=
              add_control_inputs X {c \<in> ci. control_flow_context c = control_flow_context X}
                (ps_graph (chain_stateful X ri st2))\<rparr>"
      using c l e by (simp add: process_consumer_def Let_def)
    moreover have "\<forall>c\<in>{c \<in> ci. control_flow_context c = control_flow_context X}. Q c"
      using 2(2) by simp
    ultimately show ?thesis using attach [OF 3] by simp
  qed
  show ?thesis
  proof (cases "IsInWhileLoop X")
    case True
    with r p show ?thesis by (simp add: process_op_def)
  next
    case False
    note nw = this
    show ?thesis
    proof (cases "op_type X = ''Switch''")
      case True
      show ?thesis
      proof (cases "inputs X")
        case Nil
        with r nw True show ?thesis by (simp add: process_op_def Let_def)
      next
        case (Cons inp rest)
        show ?thesis
        proof (cases "dtype inp = Resource")
          case True
          with r nw \<open>op_type X = ''Switch''\<close> Cons pm show ?thesis
            by (simp add: process_op_def Let_def)
        next
          case False
          with r nw \<open>op_type X = ''Switch''\<close> Cons
          have "process_consumer X (mark_must_run X st) = (None, st')"
            by (simp add: process_op_def Let_def)
          then show ?thesis by (rule cons)
        qed
      qed
    next
      case False
      note ns = this
      show ?thesis
      proof (cases "op_type X = ''Merge''")
        case True
        with r nw ns absorb [OF pm] show ?thesis by (simp add: process_op_def Let_def)
      next
        case False
        with r nw ns have "process_consumer X (mark_must_run X st) = (None, st')"
          by (simp add: process_op_def Let_def)
        then show ?thesis by (rule cons)
      qed
    qed
  qed
qed

lemma loop_untouched:
  "\<forall>inp\<in>set ins. dtype inp = Resource \<longrightarrow>
      tensor_id inp \<in> ri \<or> (tensor_id inp \<noteq> k \<and> op_type (t_op inp) \<noteq> ''Switch'') \<Longrightarrow>
   resource_inputs_loop X ins (ri, ci, st) = (e, ri', ci', st') \<Longrightarrow>
   e = None \<and> last_op_using_resource_tensor st' (Some k) = last_op_using_resource_tensor st (Some k)
     \<and> ci \<subseteq> ci'"
proof (induction ins arbitrary: ri ci st)
  case Nil
  then show ?case by simp
next
  case (Cons inp rest)
  show ?case
  proof (cases "dtype inp \<noteq> Resource \<or> tensor_id inp \<in> ri")
    case True
    with Cons.prems(2) have a: "resource_inputs_loop X rest (ri, ci, st) = (e, ri', ci', st')"
      by (simp only: loop_skip)
    from Cons.prems(1) have b: "\<forall>inp\<in>set rest. dtype inp = Resource \<longrightarrow>
      tensor_id inp \<in> ri \<or> (tensor_id inp \<noteq> k \<and> op_type (t_op inp) \<noteq> ''Switch'')" by simp
    from Cons.IH [OF b a] show ?thesis .
  next
    case False
    then have f: "dtype inp = Resource" "tensor_id inp \<notin> ri" by simp_all
    with Cons.prems(1) have n: "tensor_id inp \<noteq> k" "op_type (t_op inp) \<noteq> ''Switch''" by auto
    have rc: "(if op_type (t_op inp) = ''Switch'' then process_switch (t_op inp) st else (None, st))
                = (None, st)" using n by simp
    define n1 where "n1 = (case last_op_using_resource_tensor st (Some (tensor_id inp)) of
                Some l \<Rightarrow> if control_flow_context l = control_flow_context X
                          then insert l ci else ci
              | None \<Rightarrow> ci)"
    have a: "resource_inputs_loop X rest (insert (tensor_id inp) ri, n1, use_resource X inp st)
               = (e, ri', ci', st')"
      using Cons.prems(2) loop_take [OF f rc, of X rest ci] by (simp add: n1_def)
    from Cons.prems(1) have b: "\<forall>i\<in>set rest. dtype i = Resource \<longrightarrow>
      tensor_id i \<in> insert (tensor_id inp) ri \<or> (tensor_id i \<noteq> k \<and> op_type (t_op i) \<noteq> ''Switch'')"
      by auto
    have c: "ci \<subseteq> n1" by (auto simp add: n1_def split: option.splits)
    have d: "last_op_using_resource_tensor (use_resource X inp st) (Some k) =
             last_op_using_resource_tensor st (Some k)"
      using n(1) by (simp add: use_resource_sel)
    from Cons.IH [OF b a] c d show ?thesis by auto
  qed
qed

lemma loop_first_use:
  assumes calm: "\<forall>inp\<in>set ins. dtype inp = Resource \<and> inp \<noteq> t \<longrightarrow>
        tensor_id inp \<noteq> tensor_id t \<and> op_type (t_op inp) \<noteq> ''Switch''"
    and t: "dtype t = Resource"
  shows "t \<in> set ins \<Longrightarrow> tensor_id t \<notin> ri \<Longrightarrow>
     resource_inputs_loop X ins (ri, ci, st) = (None, ri', ci', st') \<Longrightarrow>
     last_op_using_resource_tensor st' (Some (tensor_id t)) = Some X \<and>
     (op_type (t_op t) = ''Switch'' \<longrightarrow>
        (\<exists>sa sb. process_switch (t_op t) sa = (None, sb) \<and> extends sb st'))"
  using calm
proof (induction ins arbitrary: ri ci st)
  case Nil
  then show ?case by simp
next
  case (Cons inp rest)
  from Cons.prems(4) have calm': "\<forall>inp\<in>set rest. dtype inp = Resource \<and> inp \<noteq> t \<longrightarrow>
        tensor_id inp \<noteq> tensor_id t \<and> op_type (t_op inp) \<noteq> ''Switch''" by simp
  show ?case
  proof (cases "inp = t")
    case True
    have f: "dtype inp = Resource" "tensor_id inp \<notin> ri" using True t Cons.prems(2) by simp_all
    obtain e1 st1 where rc: "(if op_type (t_op inp) = ''Switch'' then process_switch (t_op inp) st
        else (None, st)) = (e1, st1)" by force
    note tk = loop_take [OF f rc, of X rest ci]
    have e1: "e1 = None" using Cons.prems(3) tk by (cases e1) simp_all
    define n1 where "n1 = (case last_op_using_resource_tensor st1 (Some (tensor_id inp)) of
                Some l \<Rightarrow> if control_flow_context l = control_flow_context X
                          then insert l ci else ci
              | None \<Rightarrow> ci)"
    have a: "resource_inputs_loop X rest (insert (tensor_id inp) ri, n1, use_resource X inp st1)
               = (None, ri', ci', st')"
      using Cons.prems(3) tk e1 by (simp add: n1_def)
    have b: "\<forall>i\<in>set rest. dtype i = Resource \<longrightarrow>
      tensor_id i \<in> insert (tensor_id inp) ri \<or>
      (tensor_id i \<noteq> tensor_id t \<and> op_type (t_op i) \<noteq> ''Switch'')"
      using calm' True by auto
    from loop_untouched [OF b a] have
      "last_op_using_resource_tensor st' (Some (tensor_id t)) =
       last_op_using_resource_tensor (use_resource X inp st1) (Some (tensor_id t))" by simp
    then have 1: "last_op_using_resource_tensor st' (Some (tensor_id t)) = Some X"
      using True by (simp add: use_resource_sel)
    have x: "extends st1 st'"
      by (rule extends_trans [OF extends_use_resource extends_loop [OF a]])
    have 2: "op_type (t_op t) = ''Switch'' \<longrightarrow>
        (\<exists>sa sb. process_switch (t_op t) sa = (None, sb) \<and> extends sb st')"
    proof
      assume "op_type (t_op t) = ''Switch''"
      then have "process_switch (t_op t) st = (None, st1)" using rc e1 True by simp
      with x show "\<exists>sa sb. process_switch (t_op t) sa = (None, sb) \<and> extends sb st'" by blast
    qed
    from 1 2 show ?thesis by simp
  next
    case False
    with Cons.prems(1) have tr: "t \<in> set rest" by simp
    show ?thesis
    proof (cases "dtype inp \<noteq> Resource \<or> tensor_id inp \<in> ri")
      case True
      with Cons.prems(3) have a: "resource_inputs_loop X rest (ri, ci, st) = (None, ri', ci', st')"
        by (simp only: loop_skip)
      from Cons.IH [OF tr Cons.prems(2) a calm'] show ?thesis .
    next
      case nf: False
      then have f: "dtype inp = Resource" "tensor_id inp \<notin> ri" by simp_all
      with Cons.prems(4) False have n: "tensor_id inp \<noteq> tensor_id t"
        "op_type (t_op inp) \<noteq> ''Switch''" by auto
      have rc: "(if op_type (t_op inp) = ''Switch'' then process_switch (t_op inp) st
          else (None, st)) = (None, st)" using n by simp
      define n1 where "n1 = (case last_op_using_resource_tensor st (Some (tensor_id inp)) of
                Some l \<Rightarrow> if control_flow_context l = control_flow_context X
                          then insert l ci else ci
              | None \<Rightarrow> ci)"
      have a: "resource_inputs_loop X rest (insert (tensor_id inp) ri, n1, use_resource X inp st)
               = (None, ri', ci', st')"
        using Cons.prems(3) loop_take [OF f rc, of X rest ci] by (simp add: n1_def)
      have k: "tensor_id t \<notin> insert (tensor_id inp) ri" using n(1) Cons.prems(2) by auto
      from Cons.IH [OF tr k a calm'] show ?thesis .
    qed
  qed
qed

lemma loop_orders:
  assumes calm: "\<forall>inp\<in>set ins. dtype inp = Resource \<and> inp \<noteq> t \<longrightarrow>
        tensor_id inp \<noteq> tensor_id t \<and> op_type (t_op inp) \<noteq> ''Switch''"
    and t: "dtype t = Resource"
    and memo: "op_type (t_op t) = ''Switch'' \<longrightarrow>
                 (\<forall>s. extends st0 s \<longrightarrow> process_switch (t_op t) s = (None, s))"
    and ctx: "control_flow_context A = control_flow_context X"
  shows "t \<in> set ins \<Longrightarrow> tensor_id t \<notin> ri \<Longrightarrow> extends st0 st \<Longrightarrow>
     last_op_using_resource_tensor st (Some (tensor_id t)) = Some A \<Longrightarrow>
     resource_inputs_loop X ins (ri, ci, st) = (e, ri', ci', st') \<Longrightarrow>
     e = None \<and> A \<in> ci'"
  using calm
proof (induction ins arbitrary: ri ci st)
  case Nil
  then show ?case by simp
next
  case (Cons inp rest)
  from Cons.prems(6) have calm': "\<forall>inp\<in>set rest. dtype inp = Resource \<and> inp \<noteq> t \<longrightarrow>
        tensor_id inp \<noteq> tensor_id t \<and> op_type (t_op inp) \<noteq> ''Switch''" by simp
  show ?case
  proof (cases "inp = t")
    case True
    have f: "dtype inp = Resource" "tensor_id inp \<notin> ri" using True t Cons.prems(2) by simp_all
    have rc: "(if op_type (t_op inp) = ''Switch'' then process_switch (t_op inp) st
        else (None, st)) = (None, st)"
      using memo Cons.prems(3) True by auto
    have a: "resource_inputs_loop X rest (insert (tensor_id inp) ri, insert A ci,
               use_resource X inp st) = (e, ri', ci', st')"
      using Cons.prems(5) loop_take [OF f rc, of X rest ci] Cons.prems(4) True ctx by simp
    have b: "\<forall>i\<in>set rest. dtype i = Resource \<longrightarrow>
      tensor_id i \<in> insert (tensor_id inp) ri \<or>
      (tensor_id i \<noteq> tensor_id t \<and> op_type (t_op i) \<noteq> ''Switch'')"
      using calm' True by auto
    from loop_untouched [OF b a] show ?thesis by auto
  next
    case False
    with Cons.prems(1) have tr: "t \<in> set rest" by simp
    show ?thesis
    proof (cases "dtype inp \<noteq> Resource \<or> tensor_id inp \<in> ri")
      case True
      with Cons.prems(5) have a: "resource_inputs_loop X rest (ri, ci, st) = (e, ri', ci', st')"
        by (simp only: loop_skip)
      from Cons.IH [OF tr Cons.prems(2,3,4) a calm'] show ?thesis .
    next
      case nf: False
      then have f: "dtype inp = Resource" "tensor_id inp \<notin> ri" by simp_all
      with Cons.prems(6) False have n: "tensor_id inp \<noteq> tensor_id t"
        "op_type (t_op inp) \<noteq> ''Switch''" by auto
      have rc: "(if op_type (t_op inp) = ''Switch'' then process_switch (t_op inp) st
          else (None, st)) = (None, st)" using n by simp
      define n1 where "n1 = (case last_op_using_resource_tensor st (Some (tensor_id inp)) of
                Some l \<Rightarrow> if control_flow_context l = control_flow_context X
                          then insert l ci else ci
              | None \<Rightarrow> ci)"
      have a: "resource_inputs_loop X rest (insert (tensor_id inp) ri, n1, use_resource X inp st)
               = (e, ri', ci', st')"
        using Cons.prems(5) loop_take [OF f rc, of X rest ci] by (simp add: n1_def)
      have k: "tensor_id t \<notin> insert (tensor_id inp) ri" using n(1) Cons.prems(2) by auto
      have x: "extends st0 (use_resource X inp st)"
        by (rule extends_trans [OF Cons.prems(3) extends_use_resource])
      have l: "last_op_using_resource_tensor (use_resource X inp st) (Some (tensor_id t)) = Some A"
        using Cons.prems(4) n(1) by (simp add: use_resource_sel)
      from Cons.IH [OF tr k x l a calm'] show ?thesis .
    qed
  qed
qed


lemma consumer_tail:
  assumes "resource_inputs_loop X (inputs X) ({}, {}, s) = (None, ri, ci, s2)"
  shows "fst (process_consumer X s) = None"
    and "extends s2 (snd (process_consumer X s))"
    and "last_op_using_resource_tensor (snd (process_consumer X s)) (Some k) =
         last_op_using_resource_tensor s2 (Some k)"
    and "c \<in> ci \<Longrightarrow> control_flow_context c = control_flow_context X \<Longrightarrow>
         (op_id X, op_id c) \<in> control_edges (ps_graph (snd (process_consumer X s)))"
proof -
  let ?s3 = "chain_stateful X ri s2"
  have r: "process_consumer X s =
     (None, ?s3\<lparr>ps_graph := add_control_inputs X
         {c \<in> ci. control_flow_context c = control_flow_context X} (ps_graph ?s3)\<rparr>)"
    using assms by (simp add: process_consumer_def Let_def)
  show "fst (process_consumer X s) = None" by (simp add: r)
  have x23: "extends s2 ?s3"
    by (rule extends_same_ops) (simp_all add: chain_stateful_sel)
  have x3: "extends ?s3 (snd (process_consumer X s))"
    unfolding r by (rule extends_same_ops) (auto simp add: add_control_inputs_def)
  show "extends s2 (snd (process_consumer X s))" by (rule extends_trans [OF x23 x3])
  show "last_op_using_resource_tensor (snd (process_consumer X s)) (Some k) =
         last_op_using_resource_tensor s2 (Some k)"
    by (simp add: r chain_stateful_sel)
  show "c \<in> ci \<Longrightarrow> control_flow_context c = control_flow_context X \<Longrightarrow>
         (op_id X, op_id c) \<in> control_edges (ps_graph (snd (process_consumer X s)))"
    by (simp add: r add_control_inputs_def)
qed

lemma first_use_recorded:
  assumes kind: "\<not> IsInWhileLoop A" "op_type A \<noteq> ''Switch''" "op_type A \<noteq> ''Merge''"
    and calm: "calm t A" and t: "t \<in> set (inputs A)" "dtype t = Resource"
    and run: "process_op A st = (None, st1)"
  shows "last_op_using_resource_tensor st1 (Some (tensor_id t)) = Some A"
    and "op_type (t_op t) = ''Switch'' \<Longrightarrow>
         \<exists>sa sb. process_switch (t_op t) sa = (None, sb) \<and> extends sb st1"
proof -
  let ?s = "mark_must_run A st"
  from run kind have c: "process_consumer A ?s = (None, st1)"
    by (simp add: process_op_consumer)
  obtain e ri ci s2 where l: "resource_inputs_loop A (inputs A) ({}, {}, ?s) = (e, ri, ci, s2)"
    by (metis prod_cases4)
  with c have e: "e = None" by (cases e) (simp_all add: process_consumer_def)
  note l' = l [unfolded e]
  have cl: "\<forall>inp\<in>set (inputs A). dtype inp = Resource \<and> inp \<noteq> t \<longrightarrow>
        tensor_id inp \<noteq> tensor_id t \<and> op_type (t_op inp) \<noteq> ''Switch''"
    using calm by (simp add: calm_def)
  note f = loop_first_use [OF cl t(2) t(1) _ l']
  note tl = consumer_tail [OF l']
  have s1: "snd (process_consumer A ?s) = st1" using c by simp
  show "last_op_using_resource_tensor st1 (Some (tensor_id t)) = Some A"
    using tl(3) [of "tensor_id t"] f s1 by simp
  assume "op_type (t_op t) = ''Switch''"
  with f obtain sa sb where "process_switch (t_op t) sa = (None, sb)" "extends sb s2" by auto
  with tl(2) s1 have "process_switch (t_op t) sa = (None, sb) \<and> extends sb st1"
    using extends_trans by auto
  then show "\<exists>sa sb. process_switch (t_op t) sa = (None, sb) \<and> extends sb st1" by blast
qed

lemma quiet_step:
  assumes "quiet t X" and "process_op X st = (e, st1)"
  shows "last_op_using_resource_tensor st1 (Some (tensor_id t)) =
         last_op_using_resource_tensor st (Some (tensor_id t))"
proof (cases "IsInWhileLoop X")
  case True
  with assms(2) show ?thesis by (simp add: process_op_def)
next
  case False
  note nw = this
  let ?s = "mark_must_run X st"
  have cons: ?thesis if c: "process_op X st = process_consumer X ?s"
    and q: "\<forall>inp\<in>set (inputs X). dtype inp = Resource \<longrightarrow>
          tensor_id inp \<noteq> tensor_id t \<and> op_type (t_op inp) \<noteq> ''Switch''"
  proof -
    obtain e1 ri ci s2 where l: "resource_inputs_loop X (inputs X) ({}, {}, ?s) = (e1, ri, ci, s2)"
      by (metis prod_cases4)
    have b: "\<forall>inp\<in>set (inputs X). dtype inp = Resource \<longrightarrow>
      tensor_id inp \<in> {} \<or> (tensor_id inp \<noteq> tensor_id t \<and> op_type (t_op inp) \<noteq> ''Switch'')"
      using q by simp
    from loop_untouched [OF b l] have e1: "e1 = None"
      and u: "last_op_using_resource_tensor s2 (Some (tensor_id t)) =
              last_op_using_resource_tensor ?s (Some (tensor_id t))" by simp_all
    from consumer_tail(3) [OF l [unfolded e1], of "tensor_id t"] u assms(2) c
    show ?thesis by (simp add: mark_must_run_sel)
  qed
  show ?thesis
  proof (cases "op_type X = ''Switch''")
    case True
    show ?thesis
    proof (cases "inputs X")
      case Nil
      with assms(2) nw True show ?thesis
        by (auto simp add: process_op_def Let_def mark_must_run_sel)
    next
      case (Cons i r)
      show ?thesis
      proof (cases "dtype i = Resource")
        case r: True
        with assms(2) nw True Cons show ?thesis
          by (auto simp add: process_op_def Let_def mark_must_run_sel)
      next
        case nr: False
        have c: "process_op X st = process_consumer X ?s"
          using nw True Cons nr by (simp add: process_op_def Let_def)
        from assms(1) nw True Cons nr have q: "\<forall>inp\<in>set (inputs X). dtype inp = Resource \<longrightarrow>
          tensor_id inp \<noteq> tensor_id t \<and> op_type (t_op inp) \<noteq> ''Switch''"
          by (auto simp add: quiet_def)
        from cons [OF c q] show ?thesis .
      qed
    qed
  next
    case False
    from assms(1) nw False have m: "op_type X \<noteq> ''Merge''"
      and q: "\<forall>inp\<in>set (inputs X). dtype inp = Resource \<longrightarrow>
          tensor_id inp \<noteq> tensor_id t \<and> op_type (t_op inp) \<noteq> ''Switch''"
      by (auto simp add: quiet_def)
    have c: "process_op X st = process_consumer X ?s"
      using nw False m by (simp add: process_op_consumer)
    from cons [OF c q] show ?thesis .
  qed
qed

lemma quiet_steps:
  "\<forall>X\<in>set mid. quiet t X \<Longrightarrow> process_ops mid st = (e, st1) \<Longrightarrow>
   last_op_using_resource_tensor st1 (Some (tensor_id t)) =
   last_op_using_resource_tensor st (Some (tensor_id t))"
proof (induction mid arbitrary: st)
  case Nil
  then show ?case by simp
next
  case (Cons X rest)
  obtain e1 s1 where p: "process_op X st = (e1, s1)" by force
  from Cons.prems(1) have q: "quiet t X" and qr: "\<forall>X\<in>set rest. quiet t X" by simp_all
  note 1 = quiet_step [OF q p]
  show ?case
  proof (cases e1)
    case (Some err)
    with Cons.prems(2) p have "st1 = s1" by simp
    with 1 show ?thesis by simp
  next
    case None
    with Cons.prems(2) p have "process_ops rest s1 = (e, st1)" by simp
    from Cons.IH [OF qr this] 1 show ?thesis by simp
  qed
qed

lemma ordered_after:
  assumes kind: "\<not> IsInWhileLoop B" "op_type B \<noteq> ''Switch''" "op_type B \<noteq> ''Merge''"
    and calm: "calm t B" and t: "t \<in> set (inputs B)" "dtype t = Resource"
    and memo: "op_type (t_op t) = ''Switch'' \<longrightarrow>
                 (\<exists>sa sb. process_switch (t_op t) sa = (None, sb) \<and> extends sb st)"
    and last: "last_op_using_resource_tensor st (Some (tensor_id t)) = Some A"
    and ctx: "control_flow_context A = control_flow_context B"
  shows "fst (process_op B st) = None"
    and "(op_id B, op_id A) \<in> control_edges (ps_graph (snd (process_op B st)))"
proof -
  let ?s = "mark_must_run B st"
  have c: "process_op B st = process_consumer B ?s"
    using kind by (simp add: process_op_consumer)
  obtain e ri ci s2 where l: "resource_inputs_loop B (inputs B) ({}, {}, ?s) = (e, ri, ci, s2)"
    by (metis prod_cases4)
  have cl: "\<forall>inp\<in>set (inputs B). dtype inp = Resource \<and> inp \<noteq> t \<longrightarrow>
        tensor_id inp \<noteq> tensor_id t \<and> op_type (t_op inp) \<noteq> ''Switch''"
    using calm by (simp add: calm_def)
  have m: "op_type (t_op t) = ''Switch'' \<longrightarrow>
                 (\<forall>s. extends st s \<longrightarrow> process_switch (t_op t) s = (None, s))"
  proof (intro impI allI)
    fix s assume sw: "op_type (t_op t) = ''Switch''" and x: "extends st s"
    from memo sw obtain sa sb where p: "process_switch (t_op t) sa = (None, sb)"
      and y: "extends sb st" by blast
    show "process_switch (t_op t) s = (None, s)"
      by (rule process_switch_again [OF p extends_trans [OF y x]])
  qed
  have la: "last_op_using_resource_tensor ?s (Some (tensor_id t)) = Some A"
    using last by (simp add: mark_must_run_sel)
  from loop_orders [OF cl t(2) m ctx t(1) _ extends_mark la l]
  have e: "e = None" and a: "A \<in> ci" by simp_all
  note tl = consumer_tail [OF l [unfolded e]]
  show "fst (process_op B st) = None" using tl(1) c by simp
  show "(op_id B, op_id A) \<in> control_edges (ps_graph (snd (process_op B st)))"
    using tl(4) [OF a ctx] c by simp
qed

lemma unseen_resolve:
  assumes u: "unseen b E st" and r: "resolve_switch S k st = (None, st2)"
  shows "unseen b E st2"
proof -
  note f = resolve_switch_None [OF r]
  from u have b: "b < length (operations (ps_graph st))"
    and l: "\<And>k l. last_op_using_resource_tensor st k = Some l \<Longrightarrow> op_id l \<noteq> b"
    and m: "\<And>c. c \<in> ops_which_must_run st \<Longrightarrow> op_id c \<noteq> b"
    and e: "\<And>x. (x, b) \<in> control_edges (ps_graph st) \<Longrightarrow> (x, b) \<in> E"
    unfolding unseen_def by blast+
  have 1: "b < length (operations (ps_graph st2))" using f(2) b by simp
  have 2: "\<forall>k l. last_op_using_resource_tensor st2 k = Some l \<longrightarrow> op_id l \<noteq> b"
    unfolding f(4) using l b by (auto split: if_splits)
  have 3: "\<forall>c\<in>ops_which_must_run st2. op_id c \<noteq> b"
    unfolding f(3) using m b by auto
  have 4: "\<forall>x. (x, b) \<in> control_edges (ps_graph st2) \<longrightarrow> (x, b) \<in> E"
    unfolding f(6) using e l b by (auto split: option.splits)
  from 1 2 3 4 show ?thesis unfolding unseen_def by blast
qed

lemma unseen_switch:
  assumes "unseen b E st" and "process_switch S st = (None, st')"
  shows "unseen b E st'"
proof (rule process_switch_preserves [where P = "unseen b E" and U = UNIV,
      OF _ producers_closed_UNIV assms(1) UNIV_I assms(2)])
  fix S inp r out r' st st2
  assume "unseen b E st" and "resolve_switch S (tensor_id inp) st = (None, st2)"
  then show "unseen b E st2" by (rule unseen_resolve)
qed

lemma unseen_process_op:
  assumes X: "op_id X \<noteq> b" and u: "unseen b E st" and r: "process_op X st = (None, st')"
  shows "unseen b E st'"
proof (rule process_op_preserves [where P = "unseen b E" and Q = "\<lambda>l. op_id l \<noteq> b"
      and U = UNIV and X = X, OF _ _ _ _ _ _ _ producers_closed_UNIV UNIV_I u r])
  show "\<And>S st st'. unseen b E st \<Longrightarrow> S \<in> UNIV \<Longrightarrow> process_switch S st = (None, st') \<Longrightarrow>
          unseen b E st'"
    by (rule unseen_switch)
  show "\<And>inp st. unseen b E st \<Longrightarrow> inp \<in> set (inputs X) \<Longrightarrow> unseen b E (use_resource X inp st)"
    using X unfolding unseen_def by (auto simp add: use_resource_sel)
  show "\<And>st k l. unseen b E st \<Longrightarrow> last_op_using_resource_tensor st k = Some l \<Longrightarrow> op_id l \<noteq> b"
    unfolding unseen_def by blast
  show "\<And>st. unseen b E st \<Longrightarrow> unseen b E (mark_must_run X st)"
    using X unfolding unseen_def by (auto simp add: mark_must_run_def)
  show "\<And>st. unseen b E st \<Longrightarrow> op_type X = ''Merge'' \<Longrightarrow> unseen b E (absorb_into_merge X st)"
    using X unfolding unseen_def
    by (auto simp add: absorb_into_merge_def add_control_inputs_def split: if_splits)
  show "\<And>st ri. unseen b E st \<Longrightarrow> unseen b E (chain_stateful X ri st)"
    using X unfolding unseen_def
    by (auto simp add: chain_stateful_def ps_add_control_input_def add_control_input_def
        split: option.splits if_splits)
  show "\<And>st cs. unseen b E st \<Longrightarrow> \<forall>c\<in>cs. op_id c \<noteq> b \<Longrightarrow>
          unseen b E (st\<lparr>ps_graph := add_control_inputs X cs (ps_graph st)\<rparr>)"
    unfolding unseen_def by (auto simp add: add_control_inputs_def)
qed

lemma unseen_process_ops:
  "\<forall>X\<in>set pre. op_id X \<noteq> b \<Longrightarrow> unseen b E st \<Longrightarrow> process_ops pre st = (None, st') \<Longrightarrow>
   unseen b E st'"
proof (induction pre arbitrary: st)
  case Nil
  then show ?case by simp
next
  case (Cons X rest)
  obtain e st1 where p: "process_op X st = (e, st1)" by force
  with Cons.prems(3) have e: "e = None" by (cases e) simp_all
  from Cons.prems(1) have X: "op_id X \<noteq> b" and r: "\<forall>X\<in>set rest. op_id X \<noteq> b" by simp_all
  note 1 = unseen_process_op [OF X Cons.prems(2) p [unfolded e]]
  from Cons.prems(3) p e have "process_ops rest st1 = (None, st')" by simp
  from Cons.IH [OF r 1 this] show ?case .
qed


lemma settled_resolve:
  assumes u: "settled a E st" and S: "op_id S \<noteq> a"
    and r: "resolve_switch S k st = (None, st2)"
  shows "settled a E st2"
proof -
  note f = resolve_switch_None [OF r]
  from u have b: "a < length (operations (ps_graph st))"
    and m: "\<And>m. m \<in> ran (merge_for_resource st) \<Longrightarrow> op_id m \<noteq> a"
    and e: "\<And>c. (a, c) \<in> control_edges (ps_graph st) \<Longrightarrow> (a, c) \<in> E"
    unfolding settled_def by blast+
  have 1: "a < length (operations (ps_graph st2))" using f(2) b by simp
  have 2: "\<forall>m\<in>ran (merge_for_resource st2). op_id m \<noteq> a"
  proof
    fix m assume "m \<in> ran (merge_for_resource st2)"
    then obtain k' where "merge_for_resource st2 k' = Some m" unfolding ran_def by blast
    then have "m = synthesized_merge S st \<or> merge_for_resource st k' = Some m"
      unfolding f(5) by (auto split: if_splits)
    then show "op_id m \<noteq> a"
    proof
      assume "m = synthesized_merge S st"
      then show ?thesis using b by simp
    next
      assume "merge_for_resource st k' = Some m"
      then have "m \<in> ran (merge_for_resource st)" unfolding ran_def by blast
      then show ?thesis by (rule m)
    qed
  qed
  have 3: "\<forall>c. (a, c) \<in> control_edges (ps_graph st2) \<longrightarrow> (a, c) \<in> E"
  proof (intro allI impI)
    fix c assume "(a, c) \<in> control_edges (ps_graph st2)"
    then consider "(a, c) \<in> control_edges (ps_graph st)"
      | l where "last_op_using_resource_tensor st (Some k) = Some l" "(a, c) = (op_id S, op_id l)"
      | p where "merge_for_resource st k = Some p"
          "(a, c) = (op_id p, length (operations (ps_graph st)))"
      unfolding f(6) by (auto split: option.splits)
    then show "(a, c) \<in> E"
    proof cases
      case 1
      then show ?thesis by (rule e)
    next
      case 2
      with S show ?thesis by simp
    next
      case 3
      from 3(1) have "p \<in> ran (merge_for_resource st)" unfolding ran_def by blast
      from m [OF this] 3(2) show ?thesis by simp
    qed
  qed
  from 1 2 3 show ?thesis unfolding settled_def by blast
qed

lemma settled_switch:
  assumes closed: "producers_closed U"
    and ids: "\<forall>S\<in>U. op_type S = ''Switch'' \<longrightarrow> op_id S \<noteq> a"
  shows "settled a E st \<Longrightarrow> S \<in> U \<Longrightarrow> op_type S = ''Switch'' \<Longrightarrow>
         process_switch S st = (None, st') \<Longrightarrow> settled a E st'"
proof (rule process_switch_preserves_sw [where P = "settled a E" and U = U, OF _ closed])
  fix S inp r st st2
  assume "settled a E st" and "S \<in> U" and "op_type S = ''Switch''"
    and "resolve_switch S (tensor_id inp) st = (None, st2)"
  with ids show "settled a E st2" by (auto intro: settled_resolve)
qed

lemma settled_same:
  assumes "settled a E st" and "operations (ps_graph st') = operations (ps_graph st)"
    and "merge_for_resource st' = merge_for_resource st"
    and "\<forall>c. (a, c) \<in> control_edges (ps_graph st') \<longrightarrow> (a, c) \<in> control_edges (ps_graph st)"
  shows "settled a E st'"
  using assms unfolding settled_def by auto

lemma settled_process_op:
  assumes closed: "producers_closed U" and X: "X \<in> U"
    and ids: "\<forall>S\<in>U. op_type S = ''Switch'' \<longrightarrow> op_id S \<noteq> a"
    and Xa: "op_id X \<noteq> a"
    and u: "settled a E st" and r: "process_op X st = (None, st')"
  shows "settled a E st'"
proof (rule process_op_preserves_sw [where P = "settled a E" and Q = "\<lambda>_. True"
      and U = U and X = X, OF _ _ _ _ _ _ _ closed X u r])
  show "\<And>S st st'. settled a E st \<Longrightarrow> S \<in> U \<Longrightarrow> op_type S = ''Switch'' \<Longrightarrow>
          process_switch S st = (None, st') \<Longrightarrow> settled a E st'"
    by (rule settled_switch [OF closed ids])
  show "\<And>inp st. settled a E st \<Longrightarrow> inp \<in> set (inputs X) \<Longrightarrow>
          settled a E (use_resource X inp st)"
  proof -
    fix inp st assume s: "settled a E st"
    show "settled a E (use_resource X inp st)"
    proof (rule settled_same [OF s])
      show "\<forall>c. (a, c) \<in> control_edges (ps_graph (use_resource X inp st)) \<longrightarrow>
              (a, c) \<in> control_edges (ps_graph st)"
      proof (intro allI impI)
        fix c assume "(a, c) \<in> control_edges (ps_graph (use_resource X inp st))"
        then have "(a, c) \<in> control_edges (ps_graph st) \<or>
                   (\<exists>m. merge_for_resource st (tensor_id inp) = Some m \<and> a = op_id m)"
          by (auto simp add: use_resource_sel)
        moreover have "\<not> (\<exists>m. merge_for_resource st (tensor_id inp) = Some m \<and> a = op_id m)"
          using s unfolding settled_def ran_def by blast
        ultimately show "(a, c) \<in> control_edges (ps_graph st)" by blast
      qed
    qed (simp_all add: use_resource_sel)
  qed
  show "\<And>st. settled a E st \<Longrightarrow> settled a E (mark_must_run X st)"
  proof -
    fix st assume s: "settled a E st"
    show "settled a E (mark_must_run X st)"
      by (rule settled_same [OF s]) (simp_all add: mark_must_run_sel)
  qed
  show "\<And>st. settled a E st \<Longrightarrow> op_type X = ''Merge'' \<Longrightarrow>
          settled a E (absorb_into_merge X st)"
  proof -
    fix st assume s: "settled a E st"
    show "settled a E (absorb_into_merge X st)"
      by (rule settled_same [OF s])
        (insert Xa, auto simp add: absorb_into_merge_def add_control_inputs_def)
  qed
  show "\<And>st ri. settled a E st \<Longrightarrow> settled a E (chain_stateful X ri st)"
  proof -
    fix st ri assume s: "settled a E st"
    show "settled a E (chain_stateful X ri st)"
      by (rule settled_same [OF s])
        (insert Xa, auto simp add: chain_stateful_def ps_add_control_input_def
           add_control_input_def split: option.splits)
  qed
  show "\<And>st cs. settled a E st \<Longrightarrow> \<forall>c\<in>cs. True \<Longrightarrow>
          settled a E (st\<lparr>ps_graph := add_control_inputs X cs (ps_graph st)\<rparr>)"
  proof -
    fix st cs assume s: "settled a E st"
    show "settled a E (st\<lparr>ps_graph := add_control_inputs X cs (ps_graph st)\<rparr>)"
      by (rule settled_same [OF s]) (insert Xa, auto simp add: add_control_inputs_def)
  qed
qed simp

lemma settled_process_ops:
  assumes closed: "producers_closed U"
    and ids: "\<forall>S\<in>U. op_type S = ''Switch'' \<longrightarrow> op_id S \<noteq> a"
  shows "set rest \<subseteq> U \<Longrightarrow> \<forall>X\<in>set rest. op_id X \<noteq> a \<Longrightarrow> settled a E st \<Longrightarrow>
         process_ops rest st = (None, st') \<Longrightarrow> settled a E st'"
proof (induction rest arbitrary: st)
  case Nil
  then show ?case by simp
next
  case (Cons X rest)
  obtain e st1 where p: "process_op X st = (e, st1)" by force
  with Cons.prems(4) have e: "e = None" by (cases e) simp_all
  from Cons.prems(1) have XU: "X \<in> U" and sub: "set rest \<subseteq> U" by simp_all
  from Cons.prems(2) have X: "op_id X \<noteq> a" and r: "\<forall>X\<in>set rest. op_id X \<noteq> a" by simp_all
  note 1 = settled_process_op [OF closed XU ids X Cons.prems(3) p [unfolded e]]
  from Cons.prems(4) p e have "process_ops rest st1 = (None, st')" by simp
  from Cons.IH [OF sub r 1 this] show ?case .
qed


lemma merges_fresh:
  assumes "merges_ok base U st"
  shows "\<forall>m\<in>ran (merge_for_resource st). length base \<le> op_id m"
proof
  fix m assume "m \<in> ran (merge_for_resource st)"
  then obtain k where "merge_for_resource st k = Some m" unfolding ran_def by blast
  with assms have "m \<in> set (new_ops base st)" unfolding merges_ok_def by blast
  with assms show "length base \<le> op_id m" unfolding merges_ok_def by blast
qed

text \<open>
  Claim C1, as amended. Let \<open>A\<close> precede \<open>B\<close> in a slice that the loop processes
  without error from a fresh working state, both outside loops and neither a Switch nor a
  Merge, both in the same control-flow context and both consuming the resource tensor
  \<open>t\<close>. If \<open>A\<close> is still the last recorded user of \<open>t\<close> when \<open>B\<close> is reached
  (the other resource inputs of \<open>A\<close> and \<open>B\<close> neither share the identity of \<open>t\<close>
  nor come from a Switch, and every operation between them is quiet), then \<open>B\<close> has a
  direct control input on \<open>A\<close> at the end of the pass. And if the tensors of the graph
  are produced by operations of the graph, the slice is part of the graph, its operation
  ids are distinct and in range, and \<open>A\<close> is the only operation of the graph with its
  id, then the pass never gives \<open>A\<close> a control input on \<open>B\<close>.
\<close>

theorem consumers_ordered:
  assumes run: "process_ops (pre @ A # mid @ B # post) (initial_pass_state g) = (None, st')"
    and A: "\<not> IsInWhileLoop A" "op_type A \<noteq> ''Switch''" "op_type A \<noteq> ''Merge''"
    and B: "\<not> IsInWhileLoop B" "op_type B \<noteq> ''Switch''" "op_type B \<noteq> ''Merge''"
    and ctx: "control_flow_context A = control_flow_context B"
    and t: "t \<in> set (inputs A)" "t \<in> set (inputs B)" "dtype t = Resource"
  shows "(calm t A \<and> calm t B \<and> (\<forall>X\<in>set mid. quiet t X) \<longrightarrow>
            (op_id B, op_id A) \<in> control_edges (ps_graph st')) \<and>
         (producers_closed (set (operations g)) \<and>
          set (pre @ A # mid @ B # post) \<subseteq> set (operations g) \<and>
          distinct (map op_id (pre @ A # mid @ B # post)) \<and>
          (\<forall>S\<in>set (operations g). op_id S = op_id A \<longrightarrow> S = A) \<and>
          op_id A < length (operations g) \<and> op_id B < length (operations g) \<and>
          (op_id A, op_id B) \<notin> control_edges g \<longrightarrow>
            (op_id A, op_id B) \<notin> control_edges (ps_graph st'))"
proof -
  let ?i = "initial_pass_state g"
  from run obtain s0 s1 where
    p0: "process_ops pre ?i = (None, s0)" and pA: "process_op A s0 = (None, s1)"
    and r1: "process_ops (mid @ B # post) s1 = (None, st')"
    by (auto elim: process_ops_split)
  from r1 obtain s2 s3 where
    pm: "process_ops mid s1 = (None, s2)" and pB: "process_op B s2 = (None, s3)"
    and pp: "process_ops post s3 = (None, st')"
    by (auto elim: process_ops_split)
  have pos: "(op_id B, op_id A) \<in> control_edges (ps_graph st')"
    if cA: "calm t A" and cB: "calm t B" and q: "\<forall>X\<in>set mid. quiet t X"
  proof -
    note f = first_use_recorded [OF A cA t(1,3) pA]
    have l2: "last_op_using_resource_tensor s2 (Some (tensor_id t)) = Some A"
      using quiet_steps [OF q pm] f(1) by simp
    have x12: "extends s1 s2" by (rule extends_process_ops [OF pm])
    have memo: "op_type (t_op t) = ''Switch'' \<longrightarrow>
                 (\<exists>sa sb. process_switch (t_op t) sa = (None, sb) \<and> extends sb s2)"
    proof
      assume "op_type (t_op t) = ''Switch''"
      from f(2) [OF this] obtain sa sb where "process_switch (t_op t) sa = (None, sb)"
        "extends sb s1" by blast
      with x12 have "process_switch (t_op t) sa = (None, sb) \<and> extends sb s2"
        using extends_trans by blast
      then show "\<exists>sa sb. process_switch (t_op t) sa = (None, sb) \<and> extends sb s2" by blast
    qed
    from ordered_after(2) [OF B cB t(2,3) memo l2 ctx] pB
    have "(op_id B, op_id A) \<in> control_edges (ps_graph s3)" by simp
    with extends_edges [OF extends_process_ops [OF pp]] show ?thesis by blast
  qed
  have neg: "(op_id A, op_id B) \<notin> control_edges (ps_graph st')"
    if closed: "producers_closed (set (operations g))"
      and sub: "set (pre @ A # mid @ B # post) \<subseteq> set (operations g)"
      and dist: "distinct (map op_id (pre @ A # mid @ B # post))"
      and uniq: "\<forall>S\<in>set (operations g). op_id S = op_id A \<longrightarrow> S = A"
      and ra: "op_id A < length (operations g)" and rb: "op_id B < length (operations g)"
      and fresh: "(op_id A, op_id B) \<notin> control_edges g"
  proof -
    let ?U = "set (operations g)"
    have u0: "unseen (op_id B) (control_edges g) ?i"
      using rb by (simp add: unseen_def initial_pass_state_def)
    have pA': "process_ops (pre @ [A]) ?i = (None, s1)"
      using p0 pA by (simp add: process_ops_append)
    have nb: "\<forall>X\<in>set (pre @ [A]). op_id X \<noteq> op_id B"
      using dist by (auto simp add: image_iff)
    have u1: "unseen (op_id B) (control_edges g) s1"
      by (rule unseen_process_ops [OF nb u0 pA'])
    have preU: "set (pre @ [A]) \<subseteq> ?U" and sufU: "set (mid @ B # post) \<subseteq> ?U"
      using sub by auto
    have ok1: "merges_ok (operations g) ?U s1"
      by (rule merges_ok_process_ops [OF closed preU merges_ok_initial pA'])
    from extends_process_ops [OF pA'] obtain new where
      "operations (ps_graph s1) = operations g @ new"
      unfolding extends_def by (auto simp add: initial_pass_state_def)
    then have la: "op_id A < length (operations (ps_graph s1))" using ra by simp
    have s1: "settled (op_id A) (control_edges (ps_graph s1)) s1"
      unfolding settled_def using la merges_fresh [OF ok1] ra by auto
    have ids: "\<forall>S\<in>?U. op_type S = ''Switch'' \<longrightarrow> op_id S \<noteq> op_id A"
      using uniq A(2) by auto
    have na: "\<forall>X\<in>set (mid @ B # post). op_id X \<noteq> op_id A"
      using dist by (auto simp add: image_iff)
    have "settled (op_id A) (control_edges (ps_graph s1)) st'"
      by (rule settled_process_ops [OF closed ids sufU na s1 r1])
    then have "(op_id A, op_id B) \<in> control_edges (ps_graph st') \<longrightarrow>
               (op_id A, op_id B) \<in> control_edges (ps_graph s1)"
      unfolding settled_def by blast
    moreover have "(op_id A, op_id B) \<in> control_edges (ps_graph s1) \<longrightarrow>
               (op_id A, op_id B) \<in> control_edges g"
      using u1 unfolding unseen_def by blast
    ultimately show ?thesis using fresh by blast
  qed
  from pos neg show ?thesis by blast
qed

end
